theory Spec2Isabelle
  imports Complex_Main "HOL-Library.Word"
begin

section \<open>Machine types\<close>

type_synonym int16_t = "16 word"
type_synonym uint32_t = "32 word"

subsection \<open>Single-precision floating point (\<open>float32_t\<close>)\<close>

text \<open>
  A \<open>float32_t\<close> is an IEEE-754 binary32 value: a finite number, an infinity or a NaN.
  A finite value is held as the rational it denotes. The sign of zero is not kept: the
  filter only multiplies, adds, compares and converts to an integer, and none of these
  tells \<open>-0\<close> from \<open>+0\<close>.
\<close>

datatype float32_t = Num rat | PInf | NInf | NaN

text \<open>
  The exponent of the binade of \<open>x\<close>, between \<open>-126\<close> (subnormal numbers and the smallest
  normal binade) and \<open>127\<close>: the largest \<open>e\<close> in that range with \<open>2 ^ e \<le> \<bar>x\<bar>\<close>, found
  by searching downwards from \<open>127\<close>.
\<close>

fun binade :: "nat \<Rightarrow> rat \<Rightarrow> int" where
  "binade 0 x = - 126"
| "binade (Suc n) x = (if 2 powi (int n - 125) \<le> \<bar>x\<bar> then int n - 125 else binade n x)"

definition float_exponent :: "rat \<Rightarrow> int" where
  "float_exponent x = binade 253 x"

text \<open>Rounding to the nearest integer, ties to the even one.\<close>

definition round_half_even :: "rat \<Rightarrow> int" where
  "round_half_even t =
     (let f = \<lfloor>t\<rfloor>; d = t - of_int f
      in if d < 1 / 2 then f
         else if 1 / 2 < d then f + 1
         else if even f then f else f + 1)"

text \<open>
  Rounding a rational to binary32, to nearest, ties to even (the default mode): the
  spacing of the representable numbers around \<open>x\<close> is \<open>2 ^ (e - 23)\<close> for the binade
  exponent \<open>e\<close>; a result of magnitude \<open>2 ^ 128\<close> or more overflows to an infinity.
  Subnormal numbers are kept (no flush to zero).
\<close>

definition round32 :: "rat \<Rightarrow> float32_t" where
  "round32 x =
     (let q = 2 powi (float_exponent x - 23);
          r = of_int (round_half_even (x / q)) * q
      in if 2 powi 128 \<le> \<bar>r\<bar> then (if 0 < x then PInf else NInf) else Num r)"

text \<open>
  The number that \<open>round32\<close> delivers when it does not overflow, and the exponent of the
  spacing of the binary32 numbers around \<open>N / 2 ^ 24\<close>, counted in units of \<open>2 ^ - 24\<close>
  (for \<open>0 < N < 2 ^ 40\<close>): two abbreviations for the proofs.
\<close>

definition round_value :: "rat \<Rightarrow> rat" where
  "round_value x =
     of_int (round_half_even (x / 2 powi (float_exponent x - 23))) * 2 powi (float_exponent x - 23)"

definition grid :: "int \<Rightarrow> nat" where
  "grid N = nat (float_exponent (of_int N / 2 ^ 24) + 1)"

text \<open>
  The operations of C on \<open>float\<close> operands: the exact result, rounded once. An
  expression is evaluated in binary32, operation by operation: products are not fused
  with the addition that follows them.
\<close>

fun fneg :: "float32_t \<Rightarrow> float32_t" where
  "fneg (Num x) = Num (- x)"
| "fneg PInf = NInf"
| "fneg NInf = PInf"
| "fneg NaN = NaN"

fun fadd :: "float32_t \<Rightarrow> float32_t \<Rightarrow> float32_t" where
  "fadd NaN b = NaN"
| "fadd a NaN = NaN"
| "fadd (Num x) (Num y) = round32 (x + y)"
| "fadd PInf NInf = NaN"
| "fadd NInf PInf = NaN"
| "fadd PInf b = PInf"
| "fadd NInf b = NInf"
| "fadd a PInf = PInf"
| "fadd a NInf = NInf"

definition fsub :: "float32_t \<Rightarrow> float32_t \<Rightarrow> float32_t" where
  "fsub a b = fadd a (fneg b)"

text \<open>The infinity of the sign of \<open>x\<close>, for \<open>x \<noteq> 0\<close>; \<open>inf * 0\<close> is a NaN.\<close>

definition inf_of_sign :: "rat \<Rightarrow> float32_t" where
  "inf_of_sign x = (if x = 0 then NaN else if 0 < x then PInf else NInf)"

fun fmul :: "float32_t \<Rightarrow> float32_t \<Rightarrow> float32_t" where
  "fmul NaN b = NaN"
| "fmul a NaN = NaN"
| "fmul (Num x) (Num y) = round32 (x * y)"
| "fmul PInf (Num y) = inf_of_sign y"
| "fmul NInf (Num y) = inf_of_sign (- y)"
| "fmul (Num x) PInf = inf_of_sign x"
| "fmul (Num x) NInf = inf_of_sign (- x)"
| "fmul PInf PInf = PInf"
| "fmul NInf NInf = PInf"
| "fmul PInf NInf = NInf"
| "fmul NInf PInf = NInf"

text \<open>
  Division. A zero divisor is taken as \<open>+0\<close>: the divisors of this program are the
  constant \<open>48000\<close> and a sum \<open>1.0f + t\<close>, and a sum of two numbers that are not both
  \<open>-0\<close> is never \<open>-0\<close> when rounding to nearest.
\<close>

fun fdiv :: "float32_t \<Rightarrow> float32_t \<Rightarrow> float32_t" where
  "fdiv NaN b = NaN"
| "fdiv a NaN = NaN"
| "fdiv (Num x) (Num y) = (if y = 0 then inf_of_sign x else round32 (x / y))"
| "fdiv (Num x) b = Num 0"
| "fdiv PInf (Num y) = (if y < 0 then NInf else PInf)"
| "fdiv NInf (Num y) = (if y < 0 then PInf else NInf)"
| "fdiv a b = NaN"

text \<open>Comparisons: every comparison with a NaN is false.\<close>

fun flt :: "float32_t \<Rightarrow> float32_t \<Rightarrow> bool" where
  "flt NaN b = False"
| "flt a NaN = False"
| "flt (Num x) (Num y) = (x < y)"
| "flt PInf b = False"
| "flt a NInf = False"
| "flt NInf b = True"
| "flt a PInf = True"

definition fgt :: "float32_t \<Rightarrow> float32_t \<Rightarrow> bool" where
  "fgt a b = flt b a"

text \<open>Conversion of an \<open>int16_t\<close> to \<open>float32_t\<close>: exact, as 16 bits fit in 24.\<close>

definition float_of_int16 :: "int16_t \<Rightarrow> float32_t" where
  "float_of_int16 w = Num (of_int (sint w))"

text \<open>Conversion of an \<open>int\<close> constant to \<open>float32_t\<close>, rounded when it has more than 24 bits.\<close>

definition float_of_int :: "int \<Rightarrow> float32_t" where
  "float_of_int n = round32 (of_int n)"

text \<open>
  Conversion of a \<open>float32_t\<close> to \<open>int16_t\<close>: the fractional part is discarded
  (truncation towards zero). The behaviour is undefined in C when the truncated value
  does not fit, and for an infinity or a NaN: \<open>None\<close>.
\<close>

definition trunc_rat :: "rat \<Rightarrow> int" where
  "trunc_rat x = (if 0 \<le> x then \<lfloor>x\<rfloor> else \<lceil>x\<rceil>)"

fun int16_of_float :: "float32_t \<Rightarrow> int16_t option" where
  "int16_of_float (Num x) =
     (if - 32768 \<le> trunc_rat x \<and> trunc_rat x \<le> 32767 then Some (word_of_int (trunc_rat x))
      else None)"
| "int16_of_float v = None"

section \<open>The low-pass filter (\<open>bsp_lpf.c\<close>)\<close>

record simple_lowpass_filter_t =
  prev_output :: int16_t
  alpha :: float32_t
  min_val :: int16_t
  max_val :: int16_t

text \<open>
  \<open>filter_sample\<close> reads and updates the global \<open>lowpass_filter\<close>: the model takes the
  filter state and returns the output sample with the new state, or \<open>None\<close> where the
  final conversion to \<open>int16_t\<close> is undefined.
\<close>

definition filter_sample ::
  "simple_lowpass_filter_t \<Rightarrow> int16_t \<Rightarrow> (int16_t \<times> simple_lowpass_filter_t) option" where
  "filter_sample s input =
     (let input_float = float_of_int16 input;
          prev_output_float = float_of_int16 (prev_output s);
          output_float = fadd (fmul (alpha s) input_float)
                              (fmul (fsub (Num 1) (alpha s)) prev_output_float);
          output_float = (if fgt output_float (float_of_int16 (max_val s))
                          then float_of_int16 (max_val s) else output_float);
          output_float = (if flt output_float (float_of_int16 (min_val s))
                          then float_of_int16 (min_val s) else output_float)
      in case int16_of_float output_float of
           None \<Rightarrow> None
         | Some output \<Rightarrow> Some (output, s\<lparr>prev_output := output\<rparr>))"

text \<open>
  The two \<open>if\<close> statements of \<open>filter_sample\<close> on their own, and the truncating half of
  an integer: two abbreviations for the proofs.
\<close>

definition clamp_float :: "float32_t \<Rightarrow> int16_t \<Rightarrow> int16_t \<Rightarrow> float32_t" where
  "clamp_float v lo hi =
     (let v1 = (if fgt v (float_of_int16 hi) then float_of_int16 hi else v)
      in if flt v1 (float_of_int16 lo) then float_of_int16 lo else v1)"

definition half_towards_zero :: "int \<Rightarrow> int" where
  "half_towards_zero n = (if 0 \<le> n then n div 2 else - ((- n) div 2))"

text \<open>The parameters of \<open>bsp_lpf.h\<close>.\<close>

definition SAMPLE_RATE :: int where
  "SAMPLE_RATE = 48000"

definition CUTOFF_FREQ :: int where
  "CUTOFF_FREQ = 5000"

definition BLOCK_SIZE :: int where
  "BLOCK_SIZE = 128"

text \<open>
  Modelled from the spec: the macro \<open>PI\<close> of \<open>arm_math.h\<close>, a header that is not among
  the sources. The spec's \<open>\<pi>\<close>, as the binary32 number nearest to it, \<open>0x40490FDB\<close>.
\<close>

definition PI :: float32_t where
  "PI = Num (13176795 / 4194304)"

text \<open>
  \<open>ALPHA\<close> is \<open>(1.0f / (1.0f + 2.0f * PI * CUTOFF_FREQ / SAMPLE_RATE))\<close>: the product and
  the quotient associate to the left, the two integer constants are converted to
  \<open>float32_t\<close>, and every operation rounds.
\<close>

definition ALPHA :: float32_t where
  "ALPHA =
     fdiv (Num 1)
       (fadd (Num 1)
          (fdiv (fmul (fmul (Num 2) PI) (float_of_int CUTOFF_FREQ)) (float_of_int SAMPLE_RATE)))"

definition init_lowpass_filter :: "simple_lowpass_filter_t \<Rightarrow> simple_lowpass_filter_t" where
  "init_lowpass_filter s =
     s\<lparr>prev_output := 0, alpha := ALPHA, min_val := - 32768, max_val := 32767\<rparr>"

text \<open>
  \<open>filter_block\<close>: the loop \<open>for (uint32_t i = 0; i < size; i++)\<close> over two arrays,
  modelled as two lists that do not overlap. Reading or writing past the end of an array
  is undefined in C: \<open>None\<close>. The result is the output array and the filter state.
\<close>

function filter_block_loop ::
  "uint32_t \<Rightarrow> int16_t list \<Rightarrow> int16_t list \<Rightarrow> uint32_t \<Rightarrow> simple_lowpass_filter_t \<Rightarrow>
   (int16_t list \<times> simple_lowpass_filter_t) option" where
  "filter_block_loop i input output sz s =
     (if i < sz then
        (if unat i < length input \<and> unat i < length output then
           (case filter_sample s (input ! unat i) of
              None \<Rightarrow> None
            | Some (y, s') \<Rightarrow> filter_block_loop (i + 1) input (output[unat i := y]) sz s')
         else None)
      else Some (output, s))"
  by pat_completeness auto
termination
  by (relation "measure (\<lambda>(i, input, output, sz, s). unat sz - unat i)")
     (simp, clarsimp, unat_arith)

definition filter_block ::
  "int16_t list \<Rightarrow> int16_t list \<Rightarrow> uint32_t \<Rightarrow> simple_lowpass_filter_t \<Rightarrow>
   (int16_t list \<times> simple_lowpass_filter_t) option" where
  "filter_block input output sz s = filter_block_loop 0 input output sz s"

text \<open>
  The specification's reading of a block: one \<open>filter_sample\<close> call after the other, each
  on the state the previous call left, the outputs collected in order.
\<close>

fun sequential_samples ::
  "simple_lowpass_filter_t \<Rightarrow> int16_t list \<Rightarrow>
   (int16_t list \<times> simple_lowpass_filter_t) option" where
  "sequential_samples s [] = Some ([], s)"
| "sequential_samples s (x # xs) =
     (case filter_sample s x of
        None \<Rightarrow> None
      | Some (y, s') \<Rightarrow>
          (case sequential_samples s' xs of
             None \<Rightarrow> None
           | Some (ys, s'') \<Rightarrow> Some (y # ys, s'')))"

text \<open>The filter state after the same sample \<open>c\<close> has been fed \<open>n\<close> times.\<close>

fun constant_stream ::
  "simple_lowpass_filter_t \<Rightarrow> int16_t \<Rightarrow> nat \<Rightarrow> simple_lowpass_filter_t option" where
  "constant_stream s c 0 = Some s"
| "constant_stream s c (Suc n) =
     (case filter_sample s c of
        None \<Rightarrow> None
      | Some (y, s') \<Rightarrow> constant_stream s' c n)"

section \<open>The capture hand-off (\<open>bsp_dfsdm.c\<close>)\<close>

text \<open>The constants of \<open>bsp_dfsdm.h\<close>; \<open>/\<close> is C's integer division, on positive values.\<close>

definition SAMPLE_FREQUENCY :: nat where
  "SAMPLE_FREQUENCY = 8000"

definition BYTE_PER_SAMPLE :: nat where
  "BYTE_PER_SAMPLE = 2"

definition MICROPHEN_NUMBER :: nat where
  "MICROPHEN_NUMBER = 1"

definition FRAME_NUMBER :: nat where
  "FRAME_NUMBER = 1"

definition BUF_LENGTH :: nat where
  "BUF_LENGTH = SAMPLE_FREQUENCY div 1000 * MICROPHEN_NUMBER * FRAME_NUMBER"

text \<open>
  A callback receives a pointer to a filter handle and compares it with the addresses of
  the two handles \<open>hdfsdm1_filter0\<close> and \<open>hdfsdm1_filter1\<close>, which are distinct objects.
\<close>

datatype DFSDM_Filter_HandleTypeDef = hdfsdm1_filter0 | hdfsdm1_filter1 | other_filter nat

text \<open>The arrays of the two variants of \<open>bsp_dfsdm.c\<close>, and a byte pointer into one.\<close>

datatype capture_buffer = Mic0 | Mic1 | Dfsdm

text \<open>\<open>sizeof (int16_t)\<close>, the factor of the pointer arithmetic on \<open>int16_t *\<close>.\<close>

definition sizeof_int16 :: nat where
  "sizeof_int16 = 2"

text \<open>
  \<open>HAL_UART_Transmit_DMA (&huart1, pData, Size)\<close> belongs to the vendor's HAL. It asks
  for a transfer of \<open>Size\<close> data elements from \<open>pData\<close> and returns at once; the elements
  of a UART with words of eight bits are bytes, as the cast of \<open>pData\<close> to \<open>uint8_t *\<close>
  says. The model records the request: the array pointed into, the byte offset of
  \<open>pData\<close> in it, and \<open>Size\<close>.
\<close>

record dma_request =
  tx_buffer :: capture_buffer
  tx_offset :: nat
  tx_size :: nat

text \<open>The two-microphone variant: its arrays and the requests made on \<open>huart1\<close>.\<close>

record capture_state =
  Buf_Mic0 :: "int16_t list"
  Buf_Mic1 :: "int16_t list"
  huart1_tx :: "dma_request list"

definition HAL_UART_Transmit_DMA ::
  "capture_buffer \<Rightarrow> nat \<Rightarrow> nat \<Rightarrow> capture_state \<Rightarrow> capture_state" where
  "HAL_UART_Transmit_DMA buf off sz st =
     st\<lparr>huart1_tx := huart1_tx st @ [\<lparr>tx_buffer = buf, tx_offset = off, tx_size = sz\<rparr>]\<rparr>"

definition HAL_DFSDM_FilterRegConvHalfCpltCallback ::
  "DFSDM_Filter_HandleTypeDef \<Rightarrow> capture_state \<Rightarrow> capture_state" where
  "HAL_DFSDM_FilterRegConvHalfCpltCallback hdfsdm_filter st =
     (if hdfsdm_filter = hdfsdm1_filter0 then st
      else if hdfsdm_filter = hdfsdm1_filter1 then HAL_UART_Transmit_DMA Mic1 0 BUF_LENGTH st
      else st)"

definition HAL_DFSDM_FilterRegConvCpltCallback ::
  "DFSDM_Filter_HandleTypeDef \<Rightarrow> capture_state \<Rightarrow> capture_state" where
  "HAL_DFSDM_FilterRegConvCpltCallback hdfsdm_filter st =
     (if hdfsdm_filter = hdfsdm1_filter0 then st
      else if hdfsdm_filter = hdfsdm1_filter1
      then HAL_UART_Transmit_DMA Mic1 (sizeof_int16 * (BUF_LENGTH div 2)) BUF_LENGTH st
      else st)"

text \<open>The arrays at start-up: objects of static storage without initialiser are zero.\<close>

definition capture_init :: capture_state where
  "capture_init =
     \<lparr>Buf_Mic0 = replicate BUF_LENGTH 0, Buf_Mic1 = replicate BUF_LENGTH 0, huart1_tx = []\<rparr>"

text \<open>
  The one-microphone variant: a single array \<open>dfsdm_buf[BUF_LENGTH] = {0x12}\<close>, and
  callbacks that do not look at the handle.
\<close>

record single_state =
  dfsdm_buf :: "int16_t list"
  single_tx :: "dma_request list"

definition single_Transmit_DMA ::
  "capture_buffer \<Rightarrow> nat \<Rightarrow> nat \<Rightarrow> single_state \<Rightarrow> single_state" where
  "single_Transmit_DMA buf off sz st =
     st\<lparr>single_tx := single_tx st @ [\<lparr>tx_buffer = buf, tx_offset = off, tx_size = sz\<rparr>]\<rparr>"

definition single_HalfCpltCallback ::
  "DFSDM_Filter_HandleTypeDef \<Rightarrow> single_state \<Rightarrow> single_state" where
  "single_HalfCpltCallback hdfsdm_filter st = single_Transmit_DMA Dfsdm 0 BUF_LENGTH st"

definition single_CpltCallback ::
  "DFSDM_Filter_HandleTypeDef \<Rightarrow> single_state \<Rightarrow> single_state" where
  "single_CpltCallback hdfsdm_filter st =
     single_Transmit_DMA Dfsdm (sizeof_int16 * (BUF_LENGTH div 2)) BUF_LENGTH st"

definition single_init :: single_state where
  "single_init = \<lparr>dfsdm_buf = 0x12 # replicate (BUF_LENGTH - 1) 0, single_tx = []\<rparr>"

text \<open>
  The capture hardware calls the two callbacks one after the other; a notification is
  the callback called and the handle passed.
\<close>

datatype notification =
  HalfCplt DFSDM_Filter_HandleTypeDef
| Cplt DFSDM_Filter_HandleTypeDef

fun notified_filter :: "notification \<Rightarrow> DFSDM_Filter_HandleTypeDef" where
  "notified_filter (HalfCplt h) = h"
| "notified_filter (Cplt h) = h"

fun notify :: "notification \<Rightarrow> capture_state \<Rightarrow> capture_state" where
  "notify (HalfCplt h) st = HAL_DFSDM_FilterRegConvHalfCpltCallback h st"
| "notify (Cplt h) st = HAL_DFSDM_FilterRegConvCpltCallback h st"

fun notify_all :: "notification list \<Rightarrow> capture_state \<Rightarrow> capture_state" where
  "notify_all [] st = st"
| "notify_all (ev # evs) st = notify_all evs (notify ev st)"

fun single_notify :: "notification \<Rightarrow> single_state \<Rightarrow> single_state" where
  "single_notify (HalfCplt h) st = single_HalfCpltCallback h st"
| "single_notify (Cplt h) st = single_CpltCallback h st"

fun single_notify_all :: "notification list \<Rightarrow> single_state \<Rightarrow> single_state" where
  "single_notify_all [] st = st"
| "single_notify_all (ev # evs) st = single_notify_all evs (single_notify ev st)"

text \<open>
  The two halves of an array of \<open>BUF_LENGTH\<close> samples, as byte ranges: the first starts
  at the array, the second at the half-length, and each is half the array long.
\<close>

definition buffer_bytes :: nat where
  "buffer_bytes = sizeof_int16 * BUF_LENGTH"

definition first_half :: "capture_buffer \<Rightarrow> dma_request" where
  "first_half buf = \<lparr>tx_buffer = buf, tx_offset = 0, tx_size = buffer_bytes div 2\<rparr>"

definition second_half :: "capture_buffer \<Rightarrow> dma_request" where
  "second_half buf =
     \<lparr>tx_buffer = buf, tx_offset = buffer_bytes div 2, tx_size = buffer_bytes div 2\<rparr>"

fun expected_request :: "capture_buffer \<Rightarrow> notification \<Rightarrow> dma_request" where
  "expected_request buf (HalfCplt h) = first_half buf"
| "expected_request buf (Cplt h) = second_half buf"

section \<open>Rounding to binary32\<close>

lemma pow2_less_imp: "(2::rat) powi a < 2 powi b \<Longrightarrow> a < b"
  by (rule ccontr) (use power_int_increasing [of b a "2::rat"] in auto)

lemma pow2_le_imp: "(2::rat) powi a \<le> 2 powi b \<Longrightarrow> a \<le> b"
  by (rule ccontr) (use power_int_strict_increasing [of b a "2::rat"] in auto)

lemma binade_ge: "- 126 \<le> binade n x"
  by (induction n) auto

lemma binade_le: "binade n x \<le> int n - 126"
  by (induction n) auto

lemma binade_pow_le: "binade n x = - 126 \<or> 2 powi (binade n x) \<le> \<bar>x\<bar>"
  by (induction n) auto

lemma binade_unique:
  "- 126 \<le> e \<Longrightarrow> e \<le> int n - 126 \<Longrightarrow> e = - 126 \<or> 2 powi e \<le> \<bar>x\<bar> \<Longrightarrow>
   \<bar>x\<bar> < 2 powi (e + 1) \<Longrightarrow> binade n x = e"
proof (induction n)
  case 0
  then show ?case by simp
next
  case (Suc n)
  show ?case
  proof (cases "2 powi (int n - 125) \<le> \<bar>x\<bar>")
    case True
    with Suc.prems(4) have "(2::rat) powi (int n - 125) < 2 powi (e + 1)" by simp
    then have "int n - 125 < e + 1" by (rule pow2_less_imp)
    with Suc.prems(2) True show ?thesis by simp
  next
    case False
    have "e \<le> int n - 126"
    proof (cases "e = - 126")
      case True then show ?thesis by simp
    next
      case ne: False
      with Suc.prems(3) False have "(2::rat) powi e < 2 powi (int n - 125)" by simp
      then have "e < int n - 125" by (rule pow2_less_imp)
      then show ?thesis by simp
    qed
    with Suc False show ?thesis by simp
  qed
qed

lemma float_exponent_ge: "- 126 \<le> float_exponent x"
  by (simp add: float_exponent_def binade_ge)

lemma float_exponent_le: "float_exponent x \<le> 127"
  using binade_le [of 253 x] by (simp add: float_exponent_def)

lemma float_exponent_pow_le: "float_exponent x = - 126 \<or> 2 powi (float_exponent x) \<le> \<bar>x\<bar>"
  by (simp add: float_exponent_def binade_pow_le)

lemma float_exponent_eq:
  "- 126 \<le> e \<Longrightarrow> e \<le> 127 \<Longrightarrow> e = - 126 \<or> 2 powi e \<le> \<bar>x\<bar> \<Longrightarrow> \<bar>x\<bar> < 2 powi (e + 1) \<Longrightarrow>
   float_exponent x = e"
  unfolding float_exponent_def by (rule binade_unique) simp_all

lemma round_half_even_of_int: "round_half_even (of_int n) = n"
  by (simp add: round_half_even_def)

lemma round_half_even_le: "t \<le> of_int N \<Longrightarrow> round_half_even t \<le> N"
proof -
  assume a: "t \<le> of_int N"
  show ?thesis
  proof (cases "t = of_int N")
    case True then show ?thesis by (simp add: round_half_even_of_int)
  next
    case False
    with a have "t < of_int N" by simp
    then have "\<lfloor>t\<rfloor> < N" by (simp add: floor_less_iff)
    then show ?thesis by (simp add: round_half_even_def Let_def)
  qed
qed

lemma round_half_even_ge: "of_int N \<le> t \<Longrightarrow> N \<le> round_half_even t"
proof -
  assume "of_int N \<le> t"
  then have "N \<le> \<lfloor>t\<rfloor>" by (simp add: le_floor_iff)
  then show ?thesis by (simp add: round_half_even_def Let_def)
qed

lemma round32_exact:
  assumes m: "\<bar>m\<bar> < 2 ^ 24" and k: "- 149 \<le> k" and fin: "\<bar>of_int m * 2 powi k\<bar> < (2::rat) powi 128"
  shows "round32 (of_int m * 2 powi k) = Num (of_int m * 2 powi k)"
proof -
  define x :: rat where "x = of_int m * 2 powi k"
  define e where "e = float_exponent x"
  have ek: "e - 23 \<le> k"
  proof (cases "e = - 126")
    case True with k show ?thesis by simp
  next
    case False
    with float_exponent_pow_le [of x] have "2 powi e \<le> \<bar>x\<bar>" by (simp add: e_def)
    also have "\<bar>x\<bar> = of_int \<bar>m\<bar> * 2 powi k" by (simp add: x_def abs_mult)
    also have "\<dots> < 2 ^ 24 * 2 powi k"
    proof -
      have "(of_int \<bar>m\<bar> :: rat) < of_int (2 ^ 24)" using m by (simp only: of_int_less_iff)
      then show ?thesis by (simp add: mult_strict_right_mono)
    qed
    also have "\<dots> = 2 powi (24 + k)" by (simp add: power_int_add)
    finally have "e < 24 + k" by (rule pow2_less_imp)
    then show ?thesis by simp
  qed
  define j where "j = nat (k - (e - 23))"
  have "k = (e - 23) + int j" using ek by (simp add: j_def)
  then have "(2::rat) powi k = 2 powi ((e - 23) + int j)" by simp
  then have pk: "(2::rat) powi k = 2 powi (e - 23) * 2 ^ j" by (simp add: power_int_add)
  have q: "x / 2 powi (e - 23) = of_int (m * 2 ^ j)"
    by (simp add: x_def pk)
  have r: "of_int (round_half_even (x / 2 powi (e - 23))) * 2 powi (e - 23) = x"
    by (simp only: q round_half_even_of_int) (simp add: x_def pk)
  have "round32 x = Num x"
    unfolding round32_def Let_def e_def [symmetric] r using fin by (simp add: x_def)
  then show ?thesis by (simp add: x_def)
qed

lemma round32_le:
  assumes x: "\<bar>x\<bar> \<le> 2 powi k" and k: "- 126 \<le> k" "k \<le> 127"
  shows "\<exists>r. round32 x = Num r \<and> \<bar>r\<bar> \<le> 2 powi k"
proof -
  let ?e = "float_exponent x"
  let ?q = "2 powi (?e - 23) :: rat"
  have ek: "?e \<le> k"
  proof (cases "?e = - 126")
    case True with k show ?thesis by simp
  next
    case False
    with float_exponent_pow_le [of x] x have "(2::rat) powi ?e \<le> 2 powi k" by simp
    then show ?thesis by (rule pow2_le_imp)
  qed
  define j where "j = nat (k - (?e - 23))"
  have kj: "k = (?e - 23) + int j" using ek by (simp add: j_def)
  have N: "(2::rat) powi k = of_int (2 ^ j) * ?q"
    by (subst kj) (simp add: power_int_add)
  have qpos: "0 < ?q" by simp
  let ?n = "round_half_even (x / ?q)"
  have "x / ?q \<le> of_int (2 ^ j)"
    using x qpos unfolding N by (simp add: pos_divide_le_eq abs_le_iff)
  then have up: "?n \<le> 2 ^ j" by (rule round_half_even_le)
  have "of_int (- (2 ^ j)) \<le> x / ?q"
    using x qpos unfolding N by (simp add: pos_le_divide_eq abs_le_iff)
  then have lo: "- (2 ^ j) \<le> ?n" by (rule round_half_even_ge)
  from up lo have "\<bar>?n\<bar> \<le> 2 ^ j" by simp
  then have "(of_int \<bar>?n\<bar> :: rat) \<le> of_int (2 ^ j)" by (simp only: of_int_le_iff)
  then have "of_int \<bar>?n\<bar> * ?q \<le> of_int (2 ^ j) * ?q"
    using qpos by (simp add: mult_right_mono)
  then have b: "\<bar>of_int ?n * ?q\<bar> \<le> 2 powi k"
    unfolding N by (simp add: abs_mult)
  have "(2::rat) powi k < 2 powi 128"
    using k by (intro power_int_strict_increasing) simp_all
  with b have "\<not> 2 powi 128 \<le> \<bar>of_int ?n * ?q\<bar>" by simp
  with b show ?thesis unfolding round32_def Let_def by simp
qed

section \<open>One sample\<close>

lemma sint16_bounds: "- 32768 \<le> sint (w :: int16_t)" "sint (w :: int16_t) \<le> 32767"
  using sint_ge [of w] sint_lt [of w] by simp_all

lemma sint16_of_int:
  "- 32768 \<le> t \<Longrightarrow> t \<le> 32767 \<Longrightarrow> sint (word_of_int t :: int16_t) = t"
  by (simp add: int_word_sint)

lemma trunc_rat_bounds:
  "of_int lo \<le> x \<Longrightarrow> x \<le> of_int hi \<Longrightarrow> lo \<le> trunc_rat x \<and> trunc_rat x \<le> hi"
  by (auto simp: trunc_rat_def le_floor_iff floor_le_iff ceiling_le_iff le_ceiling_iff)

lemma trunc_rat_nonneg_eq:
  "of_int n \<le> x \<Longrightarrow> x < of_int n + 1 \<Longrightarrow> 0 \<le> n \<Longrightarrow> trunc_rat x = n"
proof -
  assume a: "of_int n \<le> x" "x < of_int n + 1" "0 \<le> n"
  then have "(of_int 0 :: rat) \<le> of_int n" by (simp only: of_int_le_iff)
  with a(1) have "0 \<le> x" by simp
  moreover have "\<lfloor>x\<rfloor> = n" using a(1,2) by (simp add: floor_eq_iff)
  ultimately show ?thesis by (simp add: trunc_rat_def)
qed

lemma int16_of_float_range:
  assumes "of_int lo \<le> q" "q \<le> of_int hi" "- 32768 \<le> lo" "hi \<le> 32767"
  shows "\<exists>y. int16_of_float (Num q) = Some y \<and> lo \<le> sint y \<and> sint y \<le> hi"
proof -
  from trunc_rat_bounds [OF assms(1,2)] have t: "lo \<le> trunc_rat q" "trunc_rat q \<le> hi"
    by simp_all
  with assms(3,4) have r: "- 32768 \<le> trunc_rat q" "trunc_rat q \<le> 32767" by simp_all
  then have "sint (word_of_int (trunc_rat q) :: int16_t) = trunc_rat q"
    by (rule sint16_of_int)
  with t r show ?thesis by simp
qed

lemma filter_sample_unfold:
  "filter_sample s x =
     (case int16_of_float
             (clamp_float (fadd (fmul (alpha s) (float_of_int16 x))
                                (fmul (fsub (Num 1) (alpha s)) (float_of_int16 (prev_output s))))
                (min_val s) (max_val s)) of
        None \<Rightarrow> None
      | Some y \<Rightarrow> Some (y, s\<lparr>prev_output := y\<rparr>))"
  by (simp add: filter_sample_def clamp_float_def Let_def)

lemma clamp_float_cases:
  assumes "sint lo \<le> sint hi"
  shows "(v = NaN \<and> clamp_float v lo hi = NaN) \<or>
         (\<exists>q. clamp_float v lo hi = Num q \<and> of_int (sint lo) \<le> q \<and> q \<le> of_int (sint hi))"
  using assms by (cases v) (auto simp: clamp_float_def float_of_int16_def fgt_def Let_def simp del: of_int_sint)

lemma clamp_float_Num:
  "of_int (sint lo) \<le> q \<Longrightarrow> q \<le> of_int (sint hi) \<Longrightarrow> clamp_float (Num q) lo hi = Num q"
  by (auto simp: clamp_float_def float_of_int16_def fgt_def Let_def simp del: of_int_sint)

lemma int16_of_clamp:
  assumes "sint lo \<le> sint hi"
  shows "(v = NaN \<and> int16_of_float (clamp_float v lo hi) = None) \<or>
         (\<exists>y. int16_of_float (clamp_float v lo hi) = Some y \<and> sint lo \<le> sint y \<and> sint y \<le> sint hi)"
proof -
  from clamp_float_cases [OF assms, of v] show ?thesis
  proof
    assume n: "v = NaN \<and> clamp_float v lo hi = NaN"
    then have "clamp_float v lo hi = NaN" by blast
    then have "int16_of_float (clamp_float v lo hi) = None" by (simp only: int16_of_float.simps)
    with n show ?thesis by blast
  next
    assume "\<exists>q. clamp_float v lo hi = Num q \<and> of_int (sint lo) \<le> q \<and> q \<le> of_int (sint hi)"
    then obtain q where q: "clamp_float v lo hi = Num q" "of_int (sint lo) \<le> q" "q \<le> of_int (sint hi)"
      by blast
    from int16_of_float_range [OF q(2,3) sint16_bounds(1) sint16_bounds(2)] q(1)
    show ?thesis by simp
  qed
qed

lemma filter_sample_clamped:
  assumes "sint (min_val s) \<le> sint (max_val s)" and "filter_sample s x = Some (y, s')"
  shows "sint (min_val s) \<le> sint y \<and> sint y \<le> sint (max_val s)"
proof -
  let ?v = "fadd (fmul (alpha s) (float_of_int16 x))
                 (fmul (fsub (Num 1) (alpha s)) (float_of_int16 (prev_output s)))"
  from assms(2) obtain y' where
    "int16_of_float (clamp_float ?v (min_val s) (max_val s)) = Some y'" and "y = y'"
    unfolding filter_sample_unfold by (auto split: option.splits)
  with int16_of_clamp [OF assms(1), of ?v] show ?thesis by auto
qed

lemma filter_sample_state:
  "filter_sample s x = Some (y, s') \<Longrightarrow> s' = s\<lparr>prev_output := y\<rparr>"
  unfolding filter_sample_unfold by (auto split: option.splits)

text \<open>
  A NaN coefficient makes the output a NaN, which passes both comparisons, and the
  conversion of a NaN to \<open>int16_t\<close> is undefined.
\<close>

lemma filter_sample_NaN: "alpha s = NaN \<Longrightarrow> filter_sample s x = None"
  by (simp add: filter_sample_unfold clamp_float_def float_of_int16_def fsub_def fgt_def)

text \<open>No overflow and no NaN for a coefficient between \<open>-1\<close> and \<open>1\<close>.\<close>

lemma abs_sint16: "\<bar>of_int (sint (w :: int16_t)) :: rat\<bar> \<le> 2 powi 15"
proof -
  have "\<bar>sint w\<bar> \<le> 32768" using sint16_bounds [of w] by simp
  then have "(of_int \<bar>sint w\<bar> :: rat) \<le> of_int 32768" by (simp only: of_int_le_iff)
  then show ?thesis by simp
qed

lemma filter_output_finite:
  assumes "\<bar>a\<bar> \<le> 1"
  shows "\<exists>r. fadd (fmul (Num a) (float_of_int16 x))
                  (fmul (fsub (Num 1) (Num a)) (float_of_int16 y)) = Num r"
proof -
  have "\<bar>a * of_int (sint x)\<bar> \<le> 1 * 2 powi 15"
    unfolding abs_mult using assms abs_sint16 [of x] by (intro mult_mono) simp_all
  then have "\<bar>a * of_int (sint x)\<bar> \<le> 2 powi 15" by simp
  from round32_le [OF this] obtain p1 where p1: "round32 (a * of_int (sint x)) = Num p1" "\<bar>p1\<bar> \<le> 2 powi 15"
    by auto
  have "\<bar>1 - a\<bar> \<le> 2 powi 1" using assms by simp
  from round32_le [OF this] obtain b where b: "round32 (1 - a) = Num b" "\<bar>b\<bar> \<le> 2 powi 1"
    by auto
  have "\<bar>b * of_int (sint y)\<bar> \<le> 2 powi 1 * 2 powi 15"
    unfolding abs_mult using b(2) abs_sint16 [of y] by (intro mult_mono) simp_all
  then have "\<bar>b * of_int (sint y)\<bar> \<le> 2 powi 16" by simp
  from round32_le [OF this] obtain p2 where p2: "round32 (b * of_int (sint y)) = Num p2" "\<bar>p2\<bar> \<le> 2 powi 16"
    by auto
  have "\<bar>p1 + p2\<bar> \<le> 2 powi 17" using p1(2) p2(2) by simp
  from round32_le [OF this] obtain r where "round32 (p1 + p2) = Num r" by auto
  with p1 b p2 show ?thesis by (simp add: float_of_int16_def fsub_def del: of_int_sint)
qed

lemma filter_sample_defined:
  assumes "alpha s = Num a" "\<bar>a\<bar> \<le> 1" "sint (min_val s) \<le> sint (max_val s)"
  shows "\<exists>y. filter_sample s x = Some (y, s\<lparr>prev_output := y\<rparr>)"
proof -
  from filter_output_finite [OF assms(2), of x "prev_output s"] obtain r where
    r: "fadd (fmul (Num a) (float_of_int16 x))
             (fmul (fsub (Num 1) (Num a)) (float_of_int16 (prev_output s))) = Num r" by blast
  from int16_of_clamp [OF assms(3), of "Num r"] obtain y where
    "int16_of_float (clamp_float (Num r) (min_val s) (max_val s)) = Some y" by auto
  then show ?thesis unfolding filter_sample_unfold assms(1) r by simp
qed

subsection \<open>The coefficient one half\<close>

lemma round32_int: "\<bar>n\<bar> < 2 ^ 24 \<Longrightarrow> round32 (of_int n) = Num (of_int n)"
proof -
  assume n: "\<bar>n\<bar> < 2 ^ 24"
  then have "(of_int \<bar>n\<bar> :: rat) < of_int (2 ^ 24)" by (simp only: of_int_less_iff)
  then have "\<bar>of_int n * 2 powi 0 :: rat\<bar> < 2 powi 128" by simp
  from round32_exact [OF n _ this] show ?thesis by simp
qed

lemma round32_half: "\<bar>n\<bar> < 2 ^ 24 \<Longrightarrow> round32 (of_int n / 2) = Num (of_int n / 2)"
proof -
  assume n: "\<bar>n\<bar> < 2 ^ 24"
  then have "(of_int \<bar>n\<bar> :: rat) < of_int (2 ^ 24)" by (simp only: of_int_less_iff)
  then have "\<bar>of_int n * 2 powi (- 1) :: rat\<bar> < 2 powi 128" by (simp add: abs_mult)
  from round32_exact [OF n _ this] show ?thesis by simp
qed

lemma trunc_rat_half:
  "trunc_rat (of_int n / 2) = (if 0 \<le> n then n div 2 else - ((- n) div 2))"
proof -
  have f: "\<lfloor>(of_int n :: rat) / 2\<rfloor> = n div 2"
    using floor_divide_of_int_eq [of n 2, where ?'a = rat] by simp
  have "\<lceil>(of_int n :: rat) / 2\<rceil> = - \<lfloor>(of_int (- n) :: rat) / 2\<rfloor>"
    by (simp add: ceiling_def)
  also have "\<dots> = - ((- n) div 2)"
    using floor_divide_of_int_eq [of "- n" 2, where ?'a = rat] by simp
  finally show ?thesis using f by (simp add: trunc_rat_def)
qed

lemma trunc_rat_half': "trunc_rat (of_int n / 2) = half_towards_zero n"
  by (simp only: trunc_rat_half half_towards_zero_def)

lemma filter_sample_half:
  assumes "alpha s = Num (1 / 2)" "min_val s = - 32768" "max_val s = 32767"
  shows "filter_sample s x =
           Some (word_of_int (half_towards_zero (sint x + sint (prev_output s))),
                 s\<lparr>prev_output := word_of_int (half_towards_zero (sint x + sint (prev_output s)))\<rparr>)"
proof -
  let ?x = "sint x" and ?y = "sint (prev_output s)"
  have bx: "- 32768 \<le> ?x" "?x \<le> 32767" and "by": "- 32768 \<le> ?y" "?y \<le> 32767"
    by (rule sint16_bounds)+
  have p1: "round32 (of_int ?x / 2) = Num (of_int ?x / 2)"
    using bx by (intro round32_half) simp
  have b: "round32 (1 / 2) = Num (1 / 2)"
    using round32_half [of 1] by simp
  have p2: "round32 (of_int ?y / 2) = Num (of_int ?y / 2)"
    using "by" by (intro round32_half) simp
  have su: "round32 (of_int ?x / 2 + of_int ?y / 2) = Num (of_int (?x + ?y) / 2)"
    using round32_half [of "?x + ?y"] bx "by" by (simp add: add_divide_distrib)
  have out: "fadd (fmul (Num (1 / 2)) (float_of_int16 x))
                  (fmul (fsub (Num 1) (Num (1 / 2))) (float_of_int16 (prev_output s)))
             = Num (of_int (?x + ?y) / 2)"
    by (simp add: float_of_int16_def fsub_def b p1 p2 su del: of_int_sint of_int_add)
  have lo: "(of_int (sint (- 32768 :: int16_t)) :: rat) \<le> of_int (?x + ?y) / 2"
  proof -
    have "- 65536 \<le> ?x + ?y" using bx "by" by simp
    then have "(of_int (- 65536) :: rat) \<le> of_int (?x + ?y)" by (simp only: of_int_le_iff)
    then show ?thesis by simp
  qed
  have hi: "(of_int (?x + ?y) :: rat) / 2 \<le> of_int (sint (32767 :: int16_t))"
  proof -
    have "?x + ?y \<le> 65534" using bx "by" by simp
    then have "(of_int (?x + ?y) :: rat) \<le> of_int 65534" by (simp only: of_int_le_iff)
    then show ?thesis by simp
  qed
  have cl: "clamp_float (Num (of_int (?x + ?y) / 2)) (- 32768) 32767 = Num (of_int (?x + ?y) / 2)"
    using lo hi by (rule clamp_float_Num)
  have t: "- 32768 \<le> trunc_rat (of_int (?x + ?y) / 2)" "trunc_rat (of_int (?x + ?y) / 2) \<le> 32767"
    using trunc_rat_bounds [OF lo hi] by simp_all
  show ?thesis
    unfolding filter_sample_unfold assms out cl using t
    by (simp only: int16_of_float.simps trunc_rat_half' if_True simp_thms option.case)
qed

subsection \<open>Evaluating a rounding whose binade is known\<close>

lemma round32_at:
  assumes "- 126 \<le> e" "e \<le> 126" "2 powi e \<le> \<bar>x\<bar>" "\<bar>x\<bar> < 2 powi (e + 1)"
  shows "round32 x = Num (of_int (round_half_even (x / 2 powi (e - 23))) * 2 powi (e - 23))"
proof -
  have e: "float_exponent x = e"
    using assms by (intro float_exponent_eq) simp_all
  from assms(4) have "\<bar>x\<bar> \<le> 2 powi (e + 1)" by simp
  from round32_le [OF this] assms(1,2) obtain r where "round32 x = Num r" by auto
  then show ?thesis
    unfolding round32_def Let_def e by (simp split: if_splits)
qed

lemma round_half_even_frac:
  assumes "0 < b"
  shows "round_half_even (of_int a / of_int b) =
    (if 2 * (a mod b) < b then a div b
     else if b < 2 * (a mod b) then a div b + 1
     else if even (a div b) then a div b else a div b + 1)"
proof -
  have f: "\<lfloor>(of_int a :: rat) / of_int b\<rfloor> = a div b" by (rule floor_divide_of_int_eq)
  have "(of_int a :: rat) = of_int (a div b * b + a mod b)" by simp
  also have "\<dots> = of_int (a div b) * of_int b + of_int (a mod b)" by (simp only: of_int_add of_int_mult)
  finally have d: "(of_int a :: rat) / of_int b - of_int (a div b) = of_int (a mod b) / of_int b"
    using assms by (simp add: field_simps)
  have lt: "(of_int (a mod b) / of_int b < (1::rat) / 2) = (2 * (a mod b) < b)"
  proof -
    have "(of_int (a mod b) / of_int b < (1::rat) / 2) = ((of_int (2 * (a mod b)) :: rat) < of_int b)"
      using assms by (simp add: field_simps)
    then show ?thesis by (simp only: of_int_less_iff)
  qed
  have gt: "((1::rat) / 2 < of_int (a mod b) / of_int b) = (b < 2 * (a mod b))"
  proof -
    have "((1::rat) / 2 < of_int (a mod b) / of_int b) = ((of_int b :: rat) < of_int (2 * (a mod b)))"
      using assms by (simp add: field_simps)
    then show ?thesis by (simp only: of_int_less_iff)
  qed
  show ?thesis
    unfolding round_half_even_def Let_def f d lt gt by (rule refl)
qed

lemma round_half_even_numeral:
  "round_half_even (numeral a / numeral b) =
    (if 2 * (numeral a mod numeral b) < (numeral b :: int) then numeral a div numeral b
     else if (numeral b :: int) < 2 * (numeral a mod numeral b) then numeral a div numeral b + 1
     else if even (numeral a div numeral b :: int) then numeral a div numeral b
     else numeral a div numeral b + 1)"
  using round_half_even_frac [of "numeral b" "numeral a"] by simp

lemma round_half_even_whole: "round_half_even (numeral a) = numeral a"
  using round_half_even_of_int [of "numeral a"] by simp

lemmas round32_eval = round_half_even_numeral round_half_even_whole

subsection \<open>A coefficient below one half\<close>

text \<open>
  With the binary32 coefficient \<open>9360055 / 2 ^ 25\<close> (\<open>0x3E8ED2B7\<close>, about \<open>0.279\<close>) the
  difference \<open>1.0f - alpha\<close> and the two products are rounded, and the sum falls just short
  of the input: from \<open>prev_output = 7979\<close> the input \<open>7979\<close> gives \<open>7978\<close>.
\<close>

lemma filter_sample_drifts:
  "filter_sample
     \<lparr>prev_output = 7979, alpha = Num (9360055 / 33554432), min_val = - 32768, max_val = 32767\<rparr>
     7979 =
   Some (7978,
     \<lparr>prev_output = 7978, alpha = Num (9360055 / 33554432), min_val = - 32768, max_val = 32767\<rparr>)"
proof -
  have p1: "fmul (Num (9360055 / 33554432)) (float_of_int16 7979) = Num (2279171 / 1024)"
    unfolding float_of_int16_def
    by (simp, subst round32_at [where e = 11]) (simp_all add: round32_eval)
  have b: "fsub (Num 1) (Num (9360055 / 33554432)) = Num (3024297 / 4194304)"
    unfolding fsub_def
    by (simp, subst round32_at [where e = "- 1"]) (simp_all add: round32_eval)
  have p2: "fmul (Num (3024297 / 4194304)) (float_of_int16 7979) = Num (11782649 / 2048)"
    unfolding float_of_int16_def
    by (simp, subst round32_at [where e = 12]) (simp_all add: round32_eval)
  have su: "fadd (Num (2279171 / 1024)) (Num (11782649 / 2048)) = Num (16340991 / 2048)"
    by (simp, subst round32_at [where e = 12]) (simp_all add: round32_eval)
  have cl: "clamp_float (Num (16340991 / 2048)) (- 32768) 32767 = Num (16340991 / 2048)"
    by (rule clamp_float_Num) simp_all
  have fl: "\<lfloor>(16340991 :: rat) / 2048\<rfloor> = 7978"
    using floor_divide_of_int_eq [of 16340991 2048, where ?'a = rat] by simp
  have tr: "int16_of_float (Num (16340991 / 2048)) = Some 7978"
    by (simp add: trunc_rat_def fl)
  let ?s = "\<lparr>prev_output = 7979, alpha = Num (9360055 / 33554432), min_val = - 32768, max_val = 32767\<rparr>"
  have sel: "alpha ?s = Num (9360055 / 33554432)" "prev_output ?s = 7979"
    "min_val ?s = - 32768" "max_val ?s = 32767" by simp_all
  show ?thesis
    unfolding filter_sample_unfold sel p1 b p2 su cl tr by simp
qed

text \<open>
  The sum is the same when the compiler fuses one of the products with the addition, so
  that this product is not rounded on its own.
\<close>

lemma fused_sum_drifts:
  "round32 (9360055 / 33554432 * 7979 + 11782649 / 2048) = Num (16340991 / 2048)"
  "round32 (2279171 / 1024 + 3024297 / 4194304 * 7979) = Num (16340991 / 2048)"
proof -
  show "round32 (9360055 / 33554432 * 7979 + 11782649 / 2048) = Num (16340991 / 2048)"
    by (simp, subst round32_at [where e = 12]) (simp_all add: round32_eval)
  show "round32 (2279171 / 1024 + 3024297 / 4194304 * 7979) = Num (16340991 / 2048)"
    by (simp, subst round32_at [where e = 12]) (simp_all add: round32_eval)
qed

subsection \<open>Coefficients with eight fractional bits\<close>

text \<open>
  For \<open>alpha = m / 256\<close> every operation of \<open>filter_sample\<close> is exact: the products and
  the sum have fewer than 24 bits.
\<close>

lemma round32_frac256: "\<bar>n\<bar> < 2 ^ 24 \<Longrightarrow> round32 (of_int n / 256) = Num (of_int n / 256)"
proof -
  assume n: "\<bar>n\<bar> < 2 ^ 24"
  then have "(of_int \<bar>n\<bar> :: rat) < of_int (2 ^ 24)" by (simp only: of_int_less_iff)
  then have "\<bar>of_int n * 2 powi (- 8) :: rat\<bar> < 2 powi 128" by (simp add: abs_mult)
  from round32_exact [OF n _ this] show ?thesis by simp
qed

lemma trunc_rat_near: "\<bar>of_int (trunc_rat v) - v\<bar> \<le> 1"
  unfolding trunc_rat_def by (auto simp: abs_if) linarith+

lemma mult_int16_bound:
  assumes "0 \<le> m" "m \<le> 256" "- 32768 \<le> x" "x \<le> (32767 :: int)"
  shows "- 8388608 \<le> m * x" "m * x \<le> 8388352 - 0"
proof -
  have "m * x \<le> m * 32767" using assms by (intro mult_left_mono) simp_all
  also have "\<dots> \<le> 256 * 32767" using assms by simp
  finally show "m * x \<le> 8388352 - 0" by simp
  have "m * (- 32768) \<le> m * x" using assms by (intro mult_left_mono) simp_all
  moreover have "256 * (- 32768) \<le> m * (- 32768)" using assms by simp
  ultimately show "- 8388608 \<le> m * x" by simp
qed

lemma filter_sample_exact:
  assumes a: "alpha s = Num (of_int m / 256)" and m: "0 < m" "m < 256"
    and lo: "min_val s = - 32768" and hi: "max_val s = 32767"
  shows "filter_sample s x =
           Some (word_of_int (trunc_rat (of_int (m * sint x + (256 - m) * sint (prev_output s)) / 256)),
                 s\<lparr>prev_output :=
                     word_of_int (trunc_rat (of_int (m * sint x + (256 - m) * sint (prev_output s)) / 256))\<rparr>)"
proof -
  define xi where "xi = sint x"
  define yi where "yi = sint (prev_output s)"
  define n where "n = m * xi + (256 - m) * yi"
  have bx: "- 32768 \<le> xi" "xi \<le> 32767" and "by": "- 32768 \<le> yi" "yi \<le> 32767"
    unfolding xi_def yi_def by (rule sint16_bounds)+
  have fx: "float_of_int16 x = Num (of_int xi)" and fy: "float_of_int16 (prev_output s) = Num (of_int yi)"
    by (simp_all add: float_of_int16_def xi_def yi_def del: of_int_sint)
  have mx: "- 8388608 \<le> m * xi" "m * xi \<le> 8388352"
    using mult_int16_bound [of m xi] m bx by simp_all
  have my: "- 8388608 \<le> (256 - m) * yi" "(256 - m) * yi \<le> 8388352"
    using mult_int16_bound [of "256 - m" yi] m "by" by simp_all
  have nlo: "256 * (- 32768) \<le> n"
  proof -
    have "m * (- 32768) \<le> m * xi" using m bx by (intro mult_left_mono) simp_all
    moreover have "(256 - m) * (- 32768) \<le> (256 - m) * yi"
      using m "by" by (intro mult_left_mono) simp_all
    ultimately show ?thesis unfolding n_def by (simp add: algebra_simps)
  qed
  have nhi: "n \<le> 256 * 32767"
  proof -
    have "m * xi \<le> m * 32767" using m bx by (intro mult_left_mono) simp_all
    moreover have "(256 - m) * yi \<le> (256 - m) * 32767"
      using m "by" by (intro mult_left_mono) simp_all
    ultimately show ?thesis unfolding n_def by (simp add: algebra_simps)
  qed
  have p1: "fmul (Num (of_int m / 256)) (Num (of_int xi)) = Num (of_int (m * xi) / 256)"
    using round32_frac256 [of "m * xi"] mx by simp
  have b: "fsub (Num 1) (Num (of_int m / 256)) = Num (of_int (256 - m) / 256)"
  proof -
    have e: "(1 :: rat) + - (of_int m / 256) = of_int (256 - m) / 256" by (simp add: field_simps)
    have "round32 (of_int (256 - m) / 256) = Num (of_int (256 - m) / 256)"
      using m by (intro round32_frac256) simp
    then show ?thesis by (simp only: fsub_def fneg.simps fadd.simps e)
  qed
  have p2: "fmul (Num (of_int (256 - m) / 256)) (Num (of_int yi)) = Num (of_int ((256 - m) * yi) / 256)"
    using round32_frac256 [of "(256 - m) * yi"] my by (simp del: of_int_diff)
  have su: "fadd (Num (of_int (m * xi) / 256)) (Num (of_int ((256 - m) * yi) / 256)) = Num (of_int n / 256)"
  proof -
    have "(of_int (m * xi) :: rat) / 256 + of_int ((256 - m) * yi) / 256 = of_int n / 256"
      unfolding n_def by (simp add: add_divide_distrib)
    moreover have "round32 (of_int n / 256) = Num (of_int n / 256)"
      using nlo nhi by (intro round32_frac256) simp
    ultimately show ?thesis by (simp only: fadd.simps)
  qed
  have vlo: "(of_int (sint (- 32768 :: int16_t)) :: rat) \<le> of_int n / 256"
  proof -
    have "(of_int (256 * (- 32768)) :: rat) \<le> of_int n" using nlo by (simp only: of_int_le_iff)
    then show ?thesis by simp
  qed
  have vhi: "(of_int n :: rat) / 256 \<le> of_int (sint (32767 :: int16_t))"
  proof -
    have "(of_int n :: rat) \<le> of_int (256 * 32767)" using nhi by (simp only: of_int_le_iff)
    then show ?thesis by simp
  qed
  have cl: "clamp_float (Num (of_int n / 256)) (- 32768) 32767 = Num (of_int n / 256)"
    using vlo vhi by (rule clamp_float_Num)
  have t: "- 32768 \<le> trunc_rat (of_int n / 256)" "trunc_rat (of_int n / 256) \<le> 32767"
    using trunc_rat_bounds [OF vlo vhi] by simp_all
  have "filter_sample s x =
          Some (word_of_int (trunc_rat (of_int n / 256)),
                s\<lparr>prev_output := word_of_int (trunc_rat (of_int n / 256))\<rparr>)"
    unfolding filter_sample_unfold a lo hi fx fy p1 b p2 su cl using t
    by (simp only: int16_of_float.simps if_True simp_thms option.case)
  then show ?thesis unfolding n_def xi_def yi_def .
qed

lemma convex_step:
  fixes c y m :: int
  assumes m: "0 < m" "m < 256"
  defines "v \<equiv> (of_int (m * c + (256 - m) * y) :: rat) / 256"
  shows "min c y \<le> trunc_rat v \<and> trunc_rat v \<le> max c y"
    and "\<bar>trunc_rat v - c\<bar> \<le> \<bar>y - c\<bar>"
    and "of_int \<bar>trunc_rat v - c\<bar> \<le> (1 - of_int m / 256) * of_int \<bar>y - c\<bar> + (1 :: rat)"
proof -
  have vc: "v - of_int c = (1 - of_int m / 256) * of_int (y - c)"
    unfolding v_def by (simp add: field_simps)
  have pos: "(0 :: rat) \<le> 1 - of_int m / 256"
  proof -
    have "(of_int m :: rat) \<le> of_int 256" using m by (simp only: of_int_le_iff)
    then show ?thesis by simp
  qed
  have le1: "(1 :: rat) - of_int m / 256 \<le> 1"
  proof -
    have "(of_int 0 :: rat) \<le> of_int m" using m by (simp only: of_int_le_iff)
    then show ?thesis by simp
  qed
  define k :: rat where "k = 1 - of_int m / 256"
  define w :: rat where "w = of_int (y - c)"
  have kw: "v - of_int c = k * w" unfolding k_def w_def by (rule vc)
  have k: "0 \<le> k" "0 \<le> 1 - k" using pos le1 unfolding k_def by simp_all
  have between: "of_int (min c y) \<le> v \<and> v \<le> of_int (max c y)"
  proof (cases "c \<le> y")
    case True
    then have w: "0 \<le> w" unfolding w_def by simp
    from k w have "0 \<le> k * w" "0 \<le> (1 - k) * w" by (simp_all only: mult_nonneg_nonneg)
    then have "0 \<le> v - of_int c" "v - of_int c \<le> w"
      unfolding kw by (simp_all add: algebra_simps)
    with True show ?thesis unfolding w_def by (simp add: min_def max_def)
  next
    case False
    then have w: "w \<le> 0" unfolding w_def by simp
    from k w have "k * w \<le> 0" "(1 - k) * w \<le> 0" by (simp_all only: mult_nonneg_nonpos)
    then have "v - of_int c \<le> 0" "w \<le> v - of_int c"
      unfolding kw by (simp_all add: algebra_simps)
    with False show ?thesis unfolding w_def by (simp add: min_def max_def)
  qed
  then show mm: "min c y \<le> trunc_rat v \<and> trunc_rat v \<le> max c y"
    by (intro trunc_rat_bounds) simp_all
  then show "\<bar>trunc_rat v - c\<bar> \<le> \<bar>y - c\<bar>" by (auto simp: min_def max_def split: if_splits)
  have "(of_int \<bar>trunc_rat v - c\<bar> :: rat) = \<bar>of_int (trunc_rat v) - of_int c\<bar>" by simp
  also have "\<dots> \<le> \<bar>of_int (trunc_rat v) - v\<bar> + \<bar>v - of_int c\<bar>" by simp
  also have "\<dots> \<le> 1 + \<bar>v - of_int c\<bar>" using trunc_rat_near [of v] by simp
  also have "\<bar>v - of_int c\<bar> = (1 - of_int m / 256) * of_int \<bar>y - c\<bar>"
    unfolding vc using pos by (simp add: abs_mult)
  finally show "of_int \<bar>trunc_rat v - c\<bar> \<le> (1 - of_int m / 256) * of_int \<bar>y - c\<bar> + (1 :: rat)"
    by simp
qed

lemma filter_sample_exact_step:
  assumes a: "alpha s = Num (of_int m / 256)" and m: "0 < m" "m < 256"
    and lo: "min_val s = - 32768" and hi: "max_val s = 32767"
  shows "\<exists>s'. filter_sample s c = Some (prev_output s', s') \<and>
           alpha s' = Num (of_int m / 256) \<and> min_val s' = - 32768 \<and> max_val s' = 32767 \<and>
           \<bar>sint (prev_output s') - sint c\<bar> \<le> \<bar>sint (prev_output s) - sint c\<bar> \<and>
           of_int \<bar>sint (prev_output s') - sint c\<bar>
             \<le> (1 - of_int m / 256) * of_int \<bar>sint (prev_output s) - sint c\<bar> + (1 :: rat)"
proof -
  define ci where "ci = sint c"
  define yi where "yi = sint (prev_output s)"
  define t where "t = trunc_rat (of_int (m * ci + (256 - m) * yi) / 256)"
  have run: "filter_sample s c = Some (word_of_int t, s\<lparr>prev_output := word_of_int t\<rparr>)"
    unfolding t_def ci_def yi_def using assms by (rule filter_sample_exact)
  have cs1: "min ci yi \<le> t \<and> t \<le> max ci yi"
    and cs2: "\<bar>t - ci\<bar> \<le> \<bar>yi - ci\<bar>"
    and cs3: "of_int \<bar>t - ci\<bar> \<le> (1 - of_int m / 256) * of_int \<bar>yi - ci\<bar> + (1 :: rat)"
    unfolding t_def by (rule convex_step [OF m])+
  have "- 32768 \<le> ci" "ci \<le> 32767" "- 32768 \<le> yi" "yi \<le> 32767"
    unfolding ci_def yi_def by (rule sint16_bounds)+
  with cs1 have "- 32768 \<le> t" "t \<le> 32767" by linarith+
  then have t: "sint (word_of_int t :: int16_t) = t" by (rule sint16_of_int)
  let ?s' = "s\<lparr>prev_output := word_of_int t\<rparr>"
  have "filter_sample s c = Some (prev_output ?s', ?s')" using run by simp
  moreover have "alpha ?s' = Num (of_int m / 256)" "min_val ?s' = - 32768" "max_val ?s' = 32767"
    using a lo hi by simp_all
  moreover have p: "sint (prev_output ?s') = t" using t by simp
  have "\<bar>sint (prev_output ?s') - sint c\<bar> \<le> \<bar>sint (prev_output s) - sint c\<bar>"
    unfolding p using cs2 unfolding ci_def yi_def .
  moreover have "of_int \<bar>sint (prev_output ?s') - sint c\<bar>
             \<le> (1 - of_int m / 256) * of_int \<bar>sint (prev_output s) - sint c\<bar> + (1 :: rat)"
    unfolding p using cs3 unfolding ci_def yi_def .
  ultimately show ?thesis by blast
qed


section \<open>Blocks and streams\<close>

lemma sequential_samples_length:
  "sequential_samples s xs = Some (ys, s') \<Longrightarrow> length ys = length xs"
  by (induction xs arbitrary: s ys) (auto split: option.splits)

lemma take_drop_step:
  "i < n \<Longrightarrow> n \<le> length xs \<Longrightarrow> take (n - i) (drop i xs) = xs ! i # take (n - Suc i) (drop (Suc i) xs)"
proof -
  assume a: "i < n" "n \<le> length xs"
  then have n: "n - i = Suc (n - Suc i)" by simp
  from a have "drop i xs = xs ! i # drop (Suc i) xs"
    by (simp add: Cons_nth_drop_Suc)
  then show ?thesis by (simp only: n take_Suc_Cons)
qed

lemma filter_block_loop_eq:
  "unat i \<le> unat sz \<Longrightarrow> unat sz \<le> length input \<Longrightarrow> unat sz \<le> length output \<Longrightarrow>
   filter_block_loop i input output sz s =
     map_option (\<lambda>(ys, s'). (take (unat i) output @ ys @ drop (unat sz) output, s'))
       (sequential_samples s (take (unat sz - unat i) (drop (unat i) input)))"
proof (induction i input "output" sz s rule: filter_block_loop.induct)
  case (1 i input out sz s)
  show ?case
  proof (cases "i < sz")
    case False
    with "1.prems"(1) have "unat i = unat sz" by (simp add: word_less_nat_alt)
    with False show ?thesis
      by (subst filter_block_loop.simps) simp
  next
    case True
    then have lt: "unat i < unat sz" by (simp add: word_less_nat_alt)
    from True have suc: "unat (i + 1) = Suc (unat i)" by unat_arith
    from lt "1.prems" have inb: "unat i < length input" "unat i < length out" by simp_all
    have td: "take (unat sz - unat i) (drop (unat i) input) =
              input ! unat i # take (unat sz - Suc (unat i)) (drop (Suc (unat i)) input)"
      using lt "1.prems"(2) by (rule take_drop_step)
    show ?thesis
    proof (cases "filter_sample s (input ! unat i)")
      case None
      with True inb td show ?thesis
        by (subst filter_block_loop.simps) simp
    next
      case (Some p)
      obtain y s' where p: "p = (y, s')" by (cases p)
      have ih: "filter_block_loop (i + 1) input (out[unat i := y]) sz s' =
        map_option (\<lambda>(ys, s''). (take (unat (i + 1)) (out[unat i := y]) @ ys @
                                   drop (unat sz) (out[unat i := y]), s''))
          (sequential_samples s' (take (unat sz - unat (i + 1)) (drop (unat (i + 1)) input)))"
        using "1.IH" [OF True _ Some [unfolded p] refl] inb lt suc "1.prems" by simp
      have t: "take (Suc (unat i)) (out[unat i := y]) = take (unat i) out @ [y]"
        using inb(2) by (simp add: take_Suc_conv_app_nth)
      have d: "drop (unat sz) (out[unat i := y]) = drop (unat sz) out"
        using lt by simp
      have "filter_block_loop i input out sz s =
            filter_block_loop (i + 1) input (out[unat i := y]) sz s'"
        using True inb Some p by (subst filter_block_loop.simps) simp
      also note ih
      finally show ?thesis
        unfolding suc t d td using Some p
        by (cases "sequential_samples s' (take (unat sz - Suc (unat i)) (drop (Suc (unat i)) input))")
           auto
    qed
  qed
qed

lemma filter_block_eq:
  assumes "unat sz \<le> length input" "unat sz \<le> length output"
  shows "filter_block input output sz s =
     map_option (\<lambda>(ys, s'). (ys @ drop (unat sz) output, s'))
       (sequential_samples s (take (unat sz) input))"
  unfolding filter_block_def using filter_block_loop_eq [of 0 sz input "output" s] assms by simp

lemma sequential_samples_defined:
  "alpha s = Num a \<Longrightarrow> \<bar>a\<bar> \<le> 1 \<Longrightarrow> sint (min_val s) \<le> sint (max_val s) \<Longrightarrow>
   sequential_samples s xs \<noteq> None"
proof (induction xs arbitrary: s)
  case Nil
  then show ?case by simp
next
  case (Cons x xs)
  from filter_sample_defined [OF Cons.prems, of x] obtain y where
    y: "filter_sample s x = Some (y, s\<lparr>prev_output := y\<rparr>)" by blast
  have "sequential_samples (s\<lparr>prev_output := y\<rparr>) xs \<noteq> None"
    using Cons.prems by (intro Cons.IH) simp_all
  with y show ?case by auto
qed

lemma constant_stream_Suc_end:
  "constant_stream s c (Suc n) =
     (case constant_stream s c n of None \<Rightarrow> None | Some s1 \<Rightarrow> map_option snd (filter_sample s1 c))"
proof (induction n arbitrary: s)
  case 0
  show ?case by (cases "filter_sample s c") auto
next
  case (Suc n)
  show ?case
  proof (cases "filter_sample s c")
    case None
    then show ?thesis by simp
  next
    case (Some p)
    obtain y s' where p: "p = (y, s')" by (cases p)
    have "constant_stream s c (Suc (Suc n)) = constant_stream s' c (Suc n)"
      using Some p by simp
    also have "\<dots> = (case constant_stream s' c n of None \<Rightarrow> None
                        | Some s1 \<Rightarrow> map_option snd (filter_sample s1 c))"
      by (rule Suc.IH)
    also have "constant_stream s' c n = constant_stream s c (Suc n)"
      using Some p by simp
    finally show ?thesis .
  qed
qed

lemma constant_stream_exact:
  assumes "alpha s = Num (of_int m / 256)" "0 < m" "m < 256"
    "min_val s = - 32768" "max_val s = 32767"
  shows "\<exists>s1. constant_stream s c n = Some s1 \<and>
           alpha s1 = Num (of_int m / 256) \<and> min_val s1 = - 32768 \<and> max_val s1 = 32767 \<and>
           of_int m / 256 * of_int \<bar>sint (prev_output s1) - sint c\<bar>
             \<le> of_int m / 256 * (1 - of_int m / 256) ^ n * of_int \<bar>sint (prev_output s) - sint c\<bar>
                 + (1 - (1 - of_int m / 256) ^ n :: rat)"
  using assms
proof (induction n arbitrary: s)
  case 0
  then show ?case by simp
next
  case (Suc n)
  define a :: rat where "a = of_int m / 256"
  define k :: rat where "k = 1 - a"
  have apos: "0 < a" using Suc.prems(2) unfolding a_def by simp
  have kpos: "0 \<le> k"
  proof -
    have "(of_int m :: rat) \<le> of_int 256" using Suc.prems(3) by (simp only: of_int_le_iff)
    then show ?thesis unfolding k_def a_def by simp
  qed
  from filter_sample_exact_step [OF Suc.prems, of c] obtain s' where
    s': "filter_sample s c = Some (prev_output s', s')"
      "alpha s' = Num (of_int m / 256)" "min_val s' = - 32768" "max_val s' = 32767"
      "of_int \<bar>sint (prev_output s') - sint c\<bar>
         \<le> k * of_int \<bar>sint (prev_output s) - sint c\<bar> + (1 :: rat)"
    unfolding k_def a_def by blast
  from Suc.IH [OF s'(2) Suc.prems(2,3) s'(3,4)] obtain s1 where
    s1: "constant_stream s' c n = Some s1"
      "alpha s1 = Num (of_int m / 256)" "min_val s1 = - 32768" "max_val s1 = 32767"
      "a * of_int \<bar>sint (prev_output s1) - sint c\<bar>
         \<le> a * k ^ n * of_int \<bar>sint (prev_output s') - sint c\<bar> + (1 - k ^ n)"
    unfolding k_def a_def by blast
  define D0 :: rat where "D0 = of_int \<bar>sint (prev_output s) - sint c\<bar>"
  define D' :: rat where "D' = of_int \<bar>sint (prev_output s') - sint c\<bar>"
  define D1 :: rat where "D1 = of_int \<bar>sint (prev_output s1) - sint c\<bar>"
  have "a * k ^ n * D' \<le> a * k ^ n * (k * D0 + 1)"
    using s'(5) apos kpos unfolding D'_def D0_def by (intro mult_left_mono) simp_all
  with s1(5) have "a * D1 \<le> a * k ^ n * (k * D0 + 1) + (1 - k ^ n)"
    unfolding D1_def D'_def by simp
  also have "\<dots> = a * k ^ Suc n * D0 + (1 - k ^ Suc n)"
    unfolding k_def by (simp add: algebra_simps)
  finally have "a * D1 \<le> a * k ^ Suc n * D0 + (1 - k ^ Suc n)" .
  with s'(1) s1(1-4) show ?case
    unfolding D1_def D0_def k_def a_def by simp
qed

lemma constant_input_frac256:
  assumes "alpha s = Num (of_int m / 256)" "0 < m" "m < 256"
    "min_val s = - 32768" "max_val s = 32767"
  shows "\<exists>s1 s2. constant_stream s c n = Some s1 \<and> constant_stream s c (Suc n) = Some s2 \<and>
           \<bar>sint (prev_output s2) - sint c\<bar> \<le> \<bar>sint (prev_output s1) - sint c\<bar> \<and>
           of_int \<bar>sint (prev_output s1) - sint c\<bar>
             \<le> (1 - of_int m / 256) ^ n * of_int \<bar>sint (prev_output s) - sint c\<bar>
                 + (256 / of_int m :: rat)"
proof -
  define a :: rat where "a = of_int m / 256"
  have apos: "0 < a" using assms(2) unfolding a_def by simp
  have kpos: "0 \<le> 1 - a"
  proof -
    have "(of_int m :: rat) \<le> of_int 256" using assms(3) by (simp only: of_int_le_iff)
    then show ?thesis unfolding a_def by simp
  qed
  from constant_stream_exact [OF assms, of c n] obtain s1 where
    s1: "constant_stream s c n = Some s1"
      "alpha s1 = Num (of_int m / 256)" "min_val s1 = - 32768" "max_val s1 = 32767"
      "a * of_int \<bar>sint (prev_output s1) - sint c\<bar>
         \<le> a * (1 - a) ^ n * of_int \<bar>sint (prev_output s) - sint c\<bar> + (1 - (1 - a) ^ n)"
    unfolding a_def by blast
  from filter_sample_exact_step [OF s1(2) assms(2,3) s1(3,4), of c] obtain s2 where
    s2: "filter_sample s1 c = Some (prev_output s2, s2)"
      "\<bar>sint (prev_output s2) - sint c\<bar> \<le> \<bar>sint (prev_output s1) - sint c\<bar>"
    by blast
  have run: "constant_stream s c (Suc n) = Some s2"
    unfolding constant_stream_Suc_end s1(1) using s2(1) by simp
  define D0 :: rat where "D0 = of_int \<bar>sint (prev_output s) - sint c\<bar>"
  define D1 :: rat where "D1 = of_int \<bar>sint (prev_output s1) - sint c\<bar>"
  have "0 \<le> (1 - a) ^ n" using kpos by simp
  with s1(5) have "a * D1 \<le> a * ((1 - a) ^ n * D0) + 1"
    unfolding D1_def D0_def by (simp add: algebra_simps)
  also have "\<dots> = a * ((1 - a) ^ n * D0 + 1 / a)"
    using apos by (simp add: algebra_simps)
  finally have "D1 \<le> (1 - a) ^ n * D0 + 1 / a"
    using apos by (simp only: mult_le_cancel_left_pos)
  moreover have "1 / a = 256 / of_int m" unfolding a_def by simp
  ultimately have "D1 \<le> (1 - of_int m / 256) ^ n * D0 + 256 / of_int m"
    unfolding a_def by simp
  with s1(1) run s2(2) show ?thesis unfolding D1_def D0_def by blast
qed

section \<open>The value of \<open>ALPHA\<close>\<close>

lemma alpha_val: "ALPHA = Num (10140363 / 16777216)"
proof -
  have a: "fmul (Num 2) PI = Num (13176795 / 2097152)"
    unfolding PI_def by (simp, subst round32_at [where e = 2]) (simp_all add: round32_eval)
  have i1: "float_of_int CUTOFF_FREQ = Num 5000"
    using round32_int [of 5000] by (simp add: float_of_int_def CUTOFF_FREQ_def)
  have i2: "float_of_int SAMPLE_RATE = Num 48000"
    using round32_int [of 48000] by (simp add: float_of_int_def SAMPLE_RATE_def)
  have b: "fmul (Num (13176795 / 2097152)) (Num 5000) = Num (16084955 / 512)"
    by (simp, subst round32_at [where e = 14]) (simp_all add: round32_eval)
  have c: "fdiv (Num (16084955 / 512)) (Num 48000) = Num (10980663 / 16777216)"
    by (simp, subst round32_at [where e = "- 1"]) (simp_all add: round32_eval)
  have d: "fadd (Num 1) (Num (10980663 / 16777216)) = Num (3469735 / 2097152)"
    by (simp, subst round32_at [where e = 0]) (simp_all add: round32_eval)
  have e: "fdiv (Num 1) (Num (3469735 / 2097152)) = Num (10140363 / 16777216)"
    by (simp, subst round32_at [where e = "- 1"]) (simp_all add: round32_eval)
  show ?thesis
    unfolding ALPHA_def a i1 i2 b c d e by (rule refl)
qed

text \<open>
  The distance of this number from the real \<open>1 / (1 + 2 * pi * 5000 / 48000)\<close>: Machin's
  formula and the alternating series of \<open>arctan\<close> give six digits of \<open>pi\<close>, which is
  enough for a distance below \<open>10 ^ - 7\<close>.
\<close>

lemma arctan_partial_sums:
  fixes x :: real
  assumes x: "0 \<le> x" "x \<le> 1"
  shows "(\<Sum>i<2 * n. (- 1) ^ i * (1 / real (i * 2 + 1) * x ^ (i * 2 + 1))) \<le> arctan x"
    and "arctan x \<le> (\<Sum>i<2 * n + 1. (- 1) ^ i * (1 / real (i * 2 + 1) * x ^ (i * 2 + 1)))"
proof -
  let ?a = "\<lambda>i. 1 / real (i * 2 + 1) * x ^ (i * 2 + 1)"
  have zero: "?a \<longlonglongrightarrow> 0"
    using x by (intro zeroseq_arctan_series) simp
  have pos: "0 \<le> ?a i" for i using x by simp
  have mono: "?a (Suc i) \<le> ?a i" for i
  proof -
    have "x ^ (Suc i * 2 + 1) = x ^ (i * 2 + 1) * x ^ 2" by (simp add: power_add power2_eq_square)
    also have "\<dots> \<le> x ^ (i * 2 + 1) * 1"
      using x by (intro mult_left_mono) (simp_all add: power_le_one)
    finally have p: "x ^ (Suc i * 2 + 1) \<le> x ^ (i * 2 + 1)" by simp
    have "1 / real (Suc i * 2 + 1) \<le> 1 / real (i * 2 + 1)" by (simp add: field_simps)
    then show ?thesis using p x by (intro mult_mono) simp_all
  qed
  have s: "arctan x = (\<Sum>i. (- 1) ^ i * ?a i)"
    using x by (intro arctan_series) simp
  show "(\<Sum>i<2 * n. (- 1) ^ i * ?a i) \<le> arctan x"
    unfolding s using zero pos mono by (rule summable_Leibniz'(2))
  show "arctan x \<le> (\<Sum>i<2 * n + 1. (- 1) ^ i * ?a i)"
    unfolding s using zero pos mono by (rule summable_Leibniz'(4))
qed

lemma pi_six_digits: "3141592 / 1000000 \<le> pi" "pi \<le> 3141593 / 1000000"
proof -
  have a_lo: "(\<Sum>i<6. (- 1) ^ i * (1 / real (i * 2 + 1) * (1 / 5) ^ (i * 2 + 1))) \<le> arctan (1 / 5)"
    using arctan_partial_sums(1) [of "1 / 5" 3] by simp
  have a_hi: "arctan (1 / 5) \<le> (\<Sum>i<5. (- 1) ^ i * (1 / real (i * 2 + 1) * (1 / 5) ^ (i * 2 + 1)))"
    using arctan_partial_sums(2) [of "1 / 5" 2] by simp
  have b_lo: "(\<Sum>i<2. (- 1) ^ i * (1 / real (i * 2 + 1) * (1 / 239) ^ (i * 2 + 1))) \<le> arctan (1 / 239)"
    using arctan_partial_sums(1) [of "1 / 239" 1] by simp
  have b_hi: "arctan (1 / 239) \<le> (\<Sum>i<1. (- 1) ^ i * (1 / real (i * 2 + 1) * (1 / 239) ^ (i * 2 + 1)))"
    using arctan_partial_sums(2) [of "1 / 239" 0] by simp
  have m: "pi = 16 * arctan (1 / 5) - 4 * arctan (1 / 239)"
    using machin by simp
  show "3141592 / 1000000 \<le> pi"
    using a_lo b_hi unfolding m by (simp add: eval_nat_numeral lessThan_Suc)
  show "pi \<le> 3141593 / 1000000"
    using a_hi b_lo unfolding m by (simp add: eval_nat_numeral lessThan_Suc)
qed

lemma alpha_near_formula:
  "\<bar>10140363 / 16777216 - 1 / (1 + 2 * pi * 5000 / 48000)\<bar> \<le> 1 / 10 ^ 7"
proof -
  define d where "d = 1 + 2 * pi * 5000 / 48000"
  define r where "r = 1 / d"
  have dpos: "0 < d" unfolding d_def by (simp add: add_pos_nonneg)
  have up: "(10140363 / 16777216 - 1 / 10 ^ 7) * d \<le> 1"
    using pi_six_digits(2) unfolding d_def by simp
  have lo: "1 \<le> (10140363 / 16777216 + 1 / 10 ^ 7) * d"
    using pi_six_digits(1) unfolding d_def by simp
  from up dpos have r1: "10140363 / 16777216 - 1 / 10 ^ 7 \<le> r"
    unfolding r_def by (simp only: pos_le_divide_eq)
  from lo dpos have r2: "r \<le> 10140363 / 16777216 + 1 / 10 ^ 7"
    unfolding r_def by (simp only: pos_divide_le_eq)
  from r1 r2 have "\<bar>10140363 / 16777216 - r\<bar> \<le> 1 / 10 ^ 7" by linarith
  then show ?thesis unfolding r_def d_def .
qed

text \<open>The constant taken for \<open>PI\<close> is \<open>pi\<close> to six digits.\<close>

lemma PI_near_pi: "\<bar>real_of_rat (13176795 / 4194304) - pi\<bar> \<le> 1 / 10 ^ 6"
proof -
  have "13176795 / 4194304 - pi \<le> 1 / 1000000" "pi - 13176795 / 4194304 \<le> 1 / 1000000"
    using pi_six_digits by simp_all
  then have "\<bar>13176795 / 4194304 - pi\<bar> \<le> 1 / 1000000" by linarith
  then show ?thesis by (simp add: of_rat_divide)
qed

text \<open>
  The configured coefficient lies in \<open>(0, 1]\<close>: on the initialised filter every call of
  \<open>filter_sample\<close> returns a value.
\<close>

lemma init_lowpass_filter_defined:
  "\<exists>y. filter_sample (init_lowpass_filter s) x =
         Some (y, (init_lowpass_filter s)\<lparr>prev_output := y\<rparr>)"
proof -
  have "alpha (init_lowpass_filter s) = Num (10140363 / 16777216)"
    using alpha_val by (simp add: init_lowpass_filter_def)
  moreover have "\<bar>10140363 / 16777216 :: rat\<bar> \<le> 1" by simp
  moreover have "sint (min_val (init_lowpass_filter s)) \<le> sint (max_val (init_lowpass_filter s))"
    by (simp add: init_lowpass_filter_def)
  ultimately show ?thesis by (rule filter_sample_defined)
qed

section \<open>Coefficients from one half up\<close>

text \<open>
  For a coefficient \<open>alpha = A / 2 ^ 24\<close> with \<open>2 ^ 23 \<le> A < 2 ^ 24\<close>, that is, for every
  binary32 number in \<open>[1/2, 1)\<close>, the three roundings of \<open>filter_sample\<close> are not exact, but
  they are monotone and they leave an integer \<open>z\<close> fixed when the input and the previous
  output are both \<open>z\<close>. Hence the output lies between the input and the previous output.
\<close>

subsection \<open>Rounding to the nearest integer\<close>

lemma round_half_even_cases:
  obtains f d where "t = of_int f + d" "0 \<le> d" "d < 1"
    "round_half_even t =
       (if d < 1 / 2 then f else if 1 / 2 < d then f + 1 else if even f then f else f + 1)"
proof -
  define f where "f = \<lfloor>t\<rfloor>"
  define d where "d = t - of_int f"
  have "of_int f \<le> t" "t < of_int f + 1"
    unfolding f_def using floor_correct [of t] by simp_all
  then have "0 \<le> d" "d < 1" unfolding d_def by linarith+
  moreover have "t = of_int f + d" unfolding d_def by simp
  moreover have "round_half_even t =
       (if d < 1 / 2 then f else if 1 / 2 < d then f + 1 else if even f then f else f + 1)"
    unfolding round_half_even_def Let_def d_def f_def by (rule refl)
  ultimately show ?thesis using that by blast
qed

lemma round_half_even_near: "\<bar>of_int (round_half_even t) - t\<bar> \<le> 1 / 2"
proof -
  obtain f d where "t = of_int f + d" "0 \<le> d" "d < 1"
    "round_half_even t =
       (if d < 1 / 2 then f else if 1 / 2 < d then f + 1 else if even f then f else f + 1)"
    by (rule round_half_even_cases)
  then show ?thesis by (auto simp: abs_if)
qed

lemma round_half_even_mono:
  assumes "s \<le> t"
  shows "round_half_even s \<le> round_half_even t"
proof -
  obtain f d where s: "s = of_int f + d" "0 \<le> d" "d < 1"
    "round_half_even s =
       (if d < 1 / 2 then f else if 1 / 2 < d then f + 1 else if even f then f else f + 1)"
    by (rule round_half_even_cases)
  obtain g e where t: "t = of_int g + e" "0 \<le> e" "e < 1"
    "round_half_even t =
       (if e < 1 / 2 then g else if 1 / 2 < e then g + 1 else if even g then g else g + 1)"
    by (rule round_half_even_cases)
  have "of_int f \<le> s" unfolding s(1) using s(2) by simp
  moreover have "t < of_int g + 1" unfolding t(1) using t(3) by simp
  ultimately have "of_int f < of_int g + (1 :: rat)" using assms by linarith
  then have "(of_int f :: rat) < of_int (g + 1)" by simp
  then have "f < g + 1" by (simp only: of_int_less_iff)
  then consider "f = g" | "f + 1 \<le> g" by linarith
  then show ?thesis
  proof cases
    case 1
    with assms s(1) t(1) have "d \<le> e" by simp
    with 1 show ?thesis unfolding s(4) t(4) by auto
  next
    case 2
    have "round_half_even s \<le> f + 1" unfolding s(4) by auto
    moreover have "g \<le> round_half_even t" unfolding t(4) by auto
    ultimately show ?thesis using 2 by linarith
  qed
qed

lemma round_half_even_near_even:
  assumes "even n" "\<bar>e\<bar> \<le> 1 / 2"
  shows "round_half_even (of_int n + e) = n"
proof -
  obtain f d where c: "of_int n + e = of_int f + d" "0 \<le> d" "d < 1"
    "round_half_even (of_int n + e) =
       (if d < 1 / 2 then f else if 1 / 2 < d then f + 1 else if even f then f else f + 1)"
    by (rule round_half_even_cases)
  from assms(2) have e: "- (1 / 2) \<le> e" "e \<le> 1 / 2" by (simp_all add: abs_le_iff)
  from c(1-3) e have "of_int n - (3 / 2 :: rat) < of_int f" "of_int f \<le> of_int n + (1 / 2 :: rat)"
    by linarith+
  then have "(of_int (n - 2) :: rat) < of_int f" "(of_int f :: rat) < of_int (n + 1)" by simp_all
  then have "n - 2 < f" "f < n + 1" by (simp_all only: of_int_less_iff)
  then consider "f = n" | "f = n - 1" by linarith
  then show ?thesis
  proof cases
    case 1
    with c(1) e have "d = e" "d \<le> 1 / 2" by simp_all
    with 1 assms(1) show ?thesis unfolding c(4) by auto
  next
    case 2
    with c(1) have "d = e + 1" by simp
    with e have "1 / 2 \<le> d" by simp
    moreover from 2 assms(1) have "odd f" by simp
    ultimately show ?thesis unfolding c(4) using 2 by auto
  qed
qed

lemma round_half_even_neg: "round_half_even (- t) = - round_half_even t"
proof -
  obtain f d where c: "t = of_int f + d" "0 \<le> d" "d < 1"
    "round_half_even t =
       (if d < 1 / 2 then f else if 1 / 2 < d then f + 1 else if even f then f else f + 1)"
    by (rule round_half_even_cases)
  show ?thesis
  proof (cases "d = 0")
    case True
    with c(1) have "t = of_int f" by simp
    then show ?thesis
      using round_half_even_of_int [of f] round_half_even_of_int [of "- f"] by simp
  next
    case False
    with c(2) have dpos: "0 < d" by simp
    obtain g e where n: "- t = of_int g + e" "0 \<le> e" "e < 1"
      "round_half_even (- t) =
         (if e < 1 / 2 then g else if 1 / 2 < e then g + 1 else if even g then g else g + 1)"
      by (rule round_half_even_cases)
    from c(1) n(1) have sum: "of_int (f + g) = - (d + e)" by simp
    from dpos c(3) n(2,3) have "- (2 :: rat) < - (d + e)" "- (d + e) < (0 :: rat)" by linarith+
    then have "(of_int (- 2) :: rat) < of_int (f + g)" "(of_int (f + g) :: rat) < of_int 0"
      unfolding sum by simp_all
    then have "- 2 < f + g" "f + g < 0" by (simp_all only: of_int_less_iff)
    then have g: "g = - f - 1" by linarith
    with sum have e: "e = 1 - d" by simp
    show ?thesis unfolding c(4) n(4) g e using dpos c(3) by auto
  qed
qed

subsection \<open>The binade and the sign\<close>

lemma binade_upper: "\<bar>x\<bar> < 2 powi (int n - 125) \<Longrightarrow> \<bar>x\<bar> < 2 powi (binade n x + 1)"
proof (induction n)
  case 0
  then show ?case by simp
next
  case (Suc n)
  show ?case
  proof (cases "2 powi (int n - 125) \<le> \<bar>x\<bar>")
    case True
    have "int (Suc n) - 125 = int n - 125 + 1" by simp
    with Suc.prems True show ?thesis by simp
  next
    case False
    then have "\<bar>x\<bar> < 2 powi (int n - 125)" by simp
    from Suc.IH [OF this] False show ?thesis by simp
  qed
qed

lemma float_exponent_upper: "\<bar>x\<bar> < 2 powi 128 \<Longrightarrow> \<bar>x\<bar> < 2 powi (float_exponent x + 1)"
  unfolding float_exponent_def using binade_upper [of x 253] by simp

lemma binade_abs: "binade n x = binade n \<bar>x\<bar>"
  by (induction n) simp_all

lemma float_exponent_neg: "float_exponent (- x) = float_exponent x"
  unfolding float_exponent_def using binade_abs [of 253 "- x"] binade_abs [of 253 x] by simp

lemma float_exponent_mono:
  assumes "\<bar>x\<bar> \<le> \<bar>y\<bar>" "\<bar>y\<bar> < 2 powi 128"
  shows "float_exponent x \<le> float_exponent y"
proof (cases "float_exponent x = - 126")
  case True
  then show ?thesis using float_exponent_ge [of y] by simp
next
  case False
  with float_exponent_pow_le [of x] have "2 powi float_exponent x \<le> \<bar>x\<bar>" by simp
  also note assms(1)
  also have "\<bar>y\<bar> < 2 powi (float_exponent y + 1)" using assms(2) by (rule float_exponent_upper)
  finally have "float_exponent x < float_exponent y + 1" by (rule pow2_less_imp)
  then show ?thesis by simp
qed

text \<open>The value of a rounding that does not overflow.\<close>

lemma round32_value: "\<bar>x\<bar> \<le> 2 powi 127 \<Longrightarrow> round32 x = Num (round_value x)"
proof -
  assume "\<bar>x\<bar> \<le> 2 powi 127"
  from round32_le [OF this] obtain r where "round32 x = Num r" by auto
  then show ?thesis
    unfolding round32_def round_value_def Let_def by (simp split: if_splits)
qed

lemma round_value_neg: "round_value (- x) = - round_value x"
  unfolding round_value_def float_exponent_neg by (simp add: round_half_even_neg)

lemma round_value_le:
  assumes "\<bar>x\<bar> \<le> 2 powi k" "- 126 \<le> k" "k \<le> 127"
  shows "\<bar>round_value x\<bar> \<le> 2 powi k"
proof -
  have "\<bar>x\<bar> \<le> 2 powi 127"
    using assms(1) power_int_increasing [of k 127 "2 :: rat"] assms(3) by simp
  from round32_le [OF assms] round32_value [OF this] show ?thesis by auto
qed

lemma round_value_nonneg: "0 \<le> x \<Longrightarrow> 0 \<le> round_value x"
proof -
  assume "0 \<le> x"
  then have "of_int 0 \<le> x / 2 powi (float_exponent x - 23)" by simp
  then have "0 \<le> round_half_even (x / 2 powi (float_exponent x - 23))"
    by (rule round_half_even_ge)
  then show ?thesis unfolding round_value_def by simp
qed

lemma round_value_ge_binade:
  assumes "0 \<le> x" "2 powi float_exponent x \<le> x"
  shows "2 powi float_exponent x \<le> round_value x"
proof -
  define e where "e = float_exponent x"
  define q :: rat where "q = 2 powi (e - 23)"
  have qpos: "0 < q" unfolding q_def by simp
  have "(2 :: rat) powi e = 2 powi (e - 23 + 23)" by simp
  also have "\<dots> = q * 2 ^ 23" unfolding q_def by (subst power_int_add) simp_all
  finally have pe: "(2 :: rat) powi e = q * 2 ^ 23" .
  from assms(2) have "q * 2 ^ 23 \<le> x" unfolding e_def [symmetric] pe .
  then have "of_int (2 ^ 23) \<le> x / q" using qpos by (simp add: pos_le_divide_eq mult.commute)
  then have "2 ^ 23 \<le> round_half_even (x / q)" by (rule round_half_even_ge)
  then have "(of_int (2 ^ 23) :: rat) \<le> of_int (round_half_even (x / q))"
    by (simp only: of_int_le_iff)
  then have "of_int (2 ^ 23) * q \<le> of_int (round_half_even (x / q)) * q"
    using qpos by (simp only: mult_le_cancel_right_pos)
  then show ?thesis
    unfolding round_value_def e_def [symmetric] q_def [symmetric] pe by (simp add: mult.commute)
qed

lemma round_value_mono_nonneg:
  assumes "0 \<le> x" "x \<le> y" "y \<le> 2 powi 126"
  shows "round_value x \<le> round_value y"
proof -
  have y128: "\<bar>y\<bar> < 2 powi 128" "\<bar>x\<bar> < 2 powi 128"
    using assms power_int_strict_increasing [of 126 128 "2 :: rat"] by simp_all
  have le: "float_exponent x \<le> float_exponent y"
    using assms y128 by (intro float_exponent_mono) simp_all
  show ?thesis
  proof (cases "float_exponent x = float_exponent y")
    case True
    have "x / 2 powi (float_exponent y - 23) \<le> y / 2 powi (float_exponent y - 23)"
      using assms(2) by (simp add: divide_right_mono)
    then have "round_half_even (x / 2 powi (float_exponent y - 23))
               \<le> round_half_even (y / 2 powi (float_exponent y - 23))"
      by (rule round_half_even_mono)
    then have "(of_int (round_half_even (x / 2 powi (float_exponent y - 23))) :: rat)
               \<le> of_int (round_half_even (y / 2 powi (float_exponent y - 23)))"
      by (simp only: of_int_le_iff)
    then show ?thesis unfolding round_value_def True by (simp add: mult_right_mono)
  next
    case False
    with le have lt: "float_exponent x + 1 \<le> float_exponent y" by simp
    have ey: "float_exponent y \<le> 127" by (rule float_exponent_le)
    have "\<bar>x\<bar> \<le> 2 powi (float_exponent x + 1)"
      using float_exponent_upper [OF y128(2)] by simp
    then have "\<bar>round_value x\<bar> \<le> 2 powi (float_exponent x + 1)"
      using float_exponent_ge [of x] lt ey by (intro round_value_le) simp_all
    then have "round_value x \<le> 2 powi (float_exponent x + 1)" by simp
    also have "\<dots> \<le> 2 powi float_exponent y"
      using lt by (intro power_int_increasing) simp_all
    also have "\<dots> \<le> round_value y"
    proof -
      from lt float_exponent_ge [of x] have "float_exponent y \<noteq> - 126" by simp
      with float_exponent_pow_le [of y] assms have "2 powi float_exponent y \<le> y" by simp
      with assms show ?thesis by (intro round_value_ge_binade) simp_all
    qed
    finally show ?thesis .
  qed
qed

lemma round_value_mono:
  assumes "x \<le> y" "\<bar>x\<bar> \<le> 2 powi 126" "\<bar>y\<bar> \<le> 2 powi 126"
  shows "round_value x \<le> round_value y"
proof -
  consider "0 \<le> x" | "x < 0" "0 \<le> y" | "y < 0" using assms(1) by linarith
  then show ?thesis
  proof cases
    case 1
    with assms show ?thesis by (intro round_value_mono_nonneg) simp_all
  next
    case 2
    then have "0 \<le> round_value (- x)" "0 \<le> round_value y"
      by (simp_all add: round_value_nonneg)
    then show ?thesis unfolding round_value_neg by simp
  next
    case 3
    with assms have "round_value (- y) \<le> round_value (- x)"
      by (intro round_value_mono_nonneg) simp_all
    then show ?thesis unfolding round_value_neg by simp
  qed
qed

lemma round_value_int: "\<bar>n\<bar> < 2 ^ 24 \<Longrightarrow> round_value (of_int n) = of_int n"
proof -
  assume n: "\<bar>n\<bar> < 2 ^ 24"
  then have "(of_int \<bar>n\<bar> :: rat) \<le> of_int (2 ^ 24)" by (simp only: of_int_le_iff)
  then have "\<bar>of_int n :: rat\<bar> \<le> 2 powi 127" by simp
  from round32_value [OF this] round32_int [OF n] show ?thesis by simp
qed

subsection \<open>Numbers in units of \<open>2 ^ - 24\<close>\<close>

lemma grid_props:
  assumes N: "0 < N" "N < 2 ^ 40"
  shows "round_value (of_int N / 2 ^ 24) =
           of_int (round_half_even (of_int N / 2 ^ grid N) * 2 ^ grid N) / 2 ^ 24"
    and "N < 2 ^ (grid N + 24)"
    and "grid N = 0 \<or> 2 ^ (grid N + 23) \<le> N"
proof -
  define x :: rat where "x = of_int N / 2 ^ 24"
  define e where "e = float_exponent x"
  define g where "g = grid N"
  have g: "g = nat (e + 1)" unfolding g_def grid_def e_def x_def by (rule refl)
  have xpos: "0 < x" unfolding x_def using N by simp
  have "(of_int N :: rat) < of_int (2 ^ 40)" using N by (simp only: of_int_less_iff)
  then have "x < 2 ^ 16" unfolding x_def by simp
  then have x128: "\<bar>x\<bar> < 2 powi 128" using xpos by simp
  have up: "x < 2 powi (e + 1)"
    using float_exponent_upper [OF x128] xpos unfolding e_def by simp
  have lo: "e = - 126 \<or> 2 powi e \<le> x"
    using float_exponent_pow_le [of x] xpos unfolding e_def by simp
  have nx: "(of_int N :: rat) = x * 2 ^ 24" unfolding x_def by simp
  have res: "round_value x = of_int (round_half_even (of_int N / 2 ^ g) * 2 ^ g) / 2 ^ 24
    \<and> N < 2 ^ (g + 24) \<and> (g = 0 \<or> 2 ^ (g + 23) \<le> N)"
  proof (cases "- 1 \<le> e")
    case True
    then have eg: "e = int g - 1" unfolding g by simp
    have pe1: "(2 :: rat) powi (e + 1) = 2 ^ g" unfolding eg by simp
    have "(2 :: rat) powi e * 2 = 2 powi (e + 1)" by (subst power_int_add) simp_all
    then have pe: "(2 :: rat) powi e = 2 ^ g / 2" unfolding pe1 by simp
    have "(2 :: rat) powi (e - 23) * 2 ^ 24 = 2 powi (e - 23) * 2 powi 24" by simp
    also have "\<dots> = 2 powi (e - 23 + 24)" by (subst power_int_add) simp_all
    also have "\<dots> = 2 ^ g" unfolding eg by simp
    finally have q: "(2 :: rat) powi (e - 23) = 2 ^ g / 2 ^ 24" by (simp add: field_simps)
    have "(of_int N :: rat) < 2 ^ g * 2 ^ 24" using up unfolding pe1 nx by simp
    then have "(of_int N :: rat) < of_int (2 ^ (g + 24))" by (simp add: power_add)
    then have b: "N < 2 ^ (g + 24)" by (simp only: of_int_less_iff)
    from True lo have "2 powi e \<le> x" by auto
    then have "(2 :: rat) ^ g / 2 * 2 ^ 24 \<le> of_int N" unfolding pe nx by simp
    then have "(of_int (2 ^ (g + 23)) :: rat) \<le> of_int N" by (simp add: power_add)
    then have c: "2 ^ (g + 23) \<le> N" by (simp only: of_int_le_iff)
    have "x / (2 ^ g / 2 ^ 24) = of_int N / 2 ^ g" unfolding x_def by simp
    then have "round_value x = of_int (round_half_even (of_int N / 2 ^ g)) * (2 ^ g / 2 ^ 24)"
      unfolding round_value_def e_def [symmetric] q by simp
    then show ?thesis using b c by simp
  next
    case False
    then have g0: "g = 0" unfolding g by simp
    from False have "e + 1 \<le> - 1" by simp
    then have "(2 :: rat) powi (e + 1) \<le> 2 powi (- 1)" by (intro power_int_increasing) simp_all
    with up have "x < 1 / 2" by simp
    then have "(of_int N :: rat) < of_int (2 ^ 23)" unfolding nx by simp
    then have n23: "N < 2 ^ 23" by (simp only: of_int_less_iff)
    have "\<bar>N\<bar> < 2 ^ 24" using N n23 by simp
    moreover have "\<bar>of_int N * 2 powi (- 24) :: rat\<bar> < 2 powi 128"
      using x128 unfolding x_def by (simp add: power_int_minus field_simps)
    ultimately have "round32 (of_int N * 2 powi (- 24)) = Num (of_int N * 2 powi (- 24))"
      by (intro round32_exact) simp_all
    then have "round32 x = Num x" unfolding x_def by (simp add: power_int_minus field_simps)
    moreover have "round32 x = Num (round_value x)"
      using x128 power_int_strict_increasing [of 127 128 "2 :: rat"] xpos \<open>x < 2 ^ 16\<close>
      by (intro round32_value) simp
    ultimately have "round_value x = x" by simp
    then show ?thesis
      unfolding g0 using N n23 by (simp add: x_def round_half_even_of_int)
  qed
  then show "round_value (of_int N / 2 ^ 24) =
           of_int (round_half_even (of_int N / 2 ^ grid N) * 2 ^ grid N) / 2 ^ 24"
    and "N < 2 ^ (grid N + 24)"
    and "grid N = 0 \<or> 2 ^ (grid N + 23) \<le> N"
    unfolding x_def g_def by simp_all
qed

lemma complement_rounding:
  fixes t :: rat and S K :: int
  assumes K: "K = 1 \<or> (0 < K \<and> even K)"
  defines "n1 \<equiv> round_half_even t"
  defines "n2 \<equiv> round_half_even (of_int K * (of_int S - t))"
  shows "\<bar>K * n1 + n2 - K * S\<bar> \<le> (if K = 1 then 1 else K div 2)"
    and "t = of_int n1 \<Longrightarrow> K * n1 + n2 = K * S"
proof -
  define W where "W = K * (S - n1)"
  define e :: rat where "e = of_int K * (of_int n1 - t)"
  have arg: "of_int K * (of_int S - t) = of_int W + e"
    unfolding W_def e_def by (simp add: algebra_simps)
  have Kpos: "0 < K" using K by auto
  have near: "\<bar>of_int n1 - t\<bar> \<le> 1 / 2" unfolding n1_def by (rule round_half_even_near)
  have eb: "\<bar>e\<bar> \<le> of_int K / 2"
  proof -
    have "\<bar>e\<bar> = of_int K * \<bar>of_int n1 - t\<bar>" unfolding e_def using Kpos by (simp add: abs_mult)
    also have "\<dots> \<le> of_int K * (1 / 2)" using near Kpos by (intro mult_left_mono) simp_all
    finally show ?thesis by simp
  qed
  define B where "B = (if K = 1 then 1 else K div 2)"
  have Bb: "of_int K / 2 \<le> (of_int B :: rat)"
  proof (cases "K = 1")
    case True
    then show ?thesis unfolding B_def by simp
  next
    case False
    with K have "even K" by simp
    then obtain k where "K = 2 * k" ..
    then show ?thesis unfolding B_def using False by simp
  qed
  from eb Bb have lo: "of_int (W - B) \<le> of_int W + e" and hi: "of_int W + e \<le> of_int (W + B)"
    by (simp_all add: abs_le_iff)
  have "W - B \<le> n2" unfolding n2_def arg using lo by (rule round_half_even_ge)
  moreover have "n2 \<le> W + B" unfolding n2_def arg using hi by (rule round_half_even_le)
  ultimately have "\<bar>n2 - W\<bar> \<le> B" by simp
  moreover have "K * n1 + n2 - K * S = n2 - W" unfolding W_def by (simp add: algebra_simps)
  ultimately show "\<bar>K * n1 + n2 - K * S\<bar> \<le> (if K = 1 then 1 else K div 2)"
    unfolding B_def by simp
  show "K * n1 + n2 = K * S" if "t = of_int n1"
  proof -
    from that have "e = 0" unfolding e_def by simp
    then have "n2 = W" unfolding n2_def arg by (simp add: round_half_even_of_int)
    then show ?thesis unfolding W_def by (simp add: algebra_simps)
  qed
qed

lemma round_value_near_int:
  fixes z D :: int and ez :: nat
  assumes z: "2 ^ ez \<le> z" "z < 2 ^ (ez + 1)" and ez: "ez \<le> 15"
    and D: "\<bar>D\<bar> \<le> 2 ^ ez" and ex: "D = 0 \<or> z \<noteq> 2 ^ ez"
  shows "round_value (of_int z + of_int D / 2 ^ 24) = of_int z"
proof (cases "D = 0")
  case True
  have "(2 :: int) ^ (ez + 1) \<le> 2 ^ 16" using ez by (intro power_increasing) simp_all
  with z have "\<bar>z\<bar> < 2 ^ 24" by simp
  with True show ?thesis by (simp add: round_value_int)
next
  case False
  with ex z have zl: "2 ^ ez + 1 \<le> z" by simp
  from z have zu: "z + 1 \<le> 2 ^ (ez + 1)" by simp
  define s :: rat where "s = of_int z + of_int D / 2 ^ 24"
  define p :: rat where "p = 2 ^ ez"
  have ppos: "0 < p" "1 \<le> p" unfolding p_def by simp_all
  have "(2 :: rat) ^ ez \<le> 2 ^ 15" using ez by (intro power_increasing) simp_all
  then have p15: "p \<le> 2 ^ 15" unfolding p_def .
  have "(of_int \<bar>D\<bar> :: rat) \<le> of_int (2 ^ ez)" using D by (simp only: of_int_le_iff)
  then have Dp: "\<bar>of_int D :: rat\<bar> \<le> p" unfolding p_def by simp
  then have dsmall: "\<bar>of_int D / 2 ^ 24 :: rat\<bar> < 1" using p15 by simp
  have "(of_int (2 ^ ez + 1) :: rat) \<le> of_int z" using zl by (simp only: of_int_le_iff)
  then have zl': "p + 1 \<le> of_int z" unfolding p_def by simp
  have "(of_int (z + 1) :: rat) \<le> of_int (2 ^ (ez + 1))" using zu by (simp only: of_int_le_iff)
  then have zu': "of_int z + 1 \<le> 2 * p" unfolding p_def by simp
  have sl: "p \<le> s" and su: "s < 2 * p"
    unfolding s_def using zl' zu' dsmall by (simp_all add: abs_less_iff)
  have spos: "0 < s" using sl ppos by simp
  have e: "float_exponent s = int ez"
  proof (rule float_exponent_eq)
    show "- 126 \<le> int ez" "int ez \<le> 127" using ez by simp_all
    show "int ez = - 126 \<or> 2 powi int ez \<le> \<bar>s\<bar>" using sl spos unfolding p_def by simp
    have "(2 :: rat) powi (int ez + 1) = 2 * 2 ^ ez" by (subst power_int_add) simp_all
    then show "\<bar>s\<bar> < 2 powi (int ez + 1)" using su spos unfolding p_def by simp
  qed
  define q :: rat where "q = 2 powi (int ez - 23)"
  define m where "m = 23 - ez"
  define c :: rat where "c = p * 2 ^ m"
  have m: "ez + m = 23" "0 < m" unfolding m_def using ez by simp_all
  have "(2 :: rat) ^ 23 = 2 ^ (ez + m)" using m by simp
  then have c23: "(2 :: rat) ^ 23 = c" unfolding c_def p_def by (simp add: power_add)
  then have c24: "(2 :: rat) ^ 24 = 2 * c" by simp
  have cpos: "0 < c" unfolding c_def using ppos by simp
  have "q * 2 ^ 23 = 2 powi (int ez - 23) * 2 powi 23" unfolding q_def by simp
  also have "\<dots> = 2 powi (int ez - 23 + 23)" by (subst power_int_add) simp_all
  finally have "q * c = p" unfolding c23 p_def by simp
  then have q: "q = p / c" using cpos by (simp add: field_simps)
  have "s = of_int z + of_int D / (2 * c)" unfolding s_def c24 ..
  then have "s / q = of_int z * (c / p) + of_int D / (2 * c) * (c / p)"
    unfolding q using ppos cpos by (simp add: field_simps)
  moreover have cp: "c / p = 2 ^ m" unfolding c_def using ppos by simp
  moreover have "of_int D / (2 * c) * (c / p) = of_int D / (2 * p)" using cpos ppos by simp
  ultimately have sq: "s / q = of_int (z * 2 ^ m) + of_int D / (2 * p)" by simp
  have ev: "even (z * 2 ^ m)" using m by simp
  have "\<bar>of_int D / (2 * p)\<bar> \<le> 1 / 2" using Dp ppos by (simp add: field_simps)
  with ev have "round_half_even (s / q) = z * 2 ^ m"
    unfolding sq by (rule round_half_even_near_even)
  then have "round_value s = of_int (z * 2 ^ m) * q"
    unfolding round_value_def e q_def by simp
  also have "\<dots> = of_int z * (2 ^ m * (p / c))" unfolding q by simp
  also have "2 ^ m * (p / c) = 1" unfolding c_def using ppos by simp
  finally show ?thesis unfolding s_def by simp
qed

subsection \<open>Input and previous output equal\<close>

lemma int_binade:
  fixes z :: int
  assumes "1 \<le> z"
  obtains ez :: nat where "2 ^ ez \<le> z" "z < 2 ^ (ez + 1)"
proof -
  from assms have "1 \<le> nat z" by simp
  from ex_power_ivl1 [OF _ this, of 2] obtain n where n: "2 ^ n \<le> nat z" "nat z < 2 ^ (n + 1)"
    by auto
  from n(1) have "int (2 ^ n) \<le> int (nat z)" by (simp only: of_nat_le_iff)
  then have a: "2 ^ n \<le> z" using assms by simp
  from n(2) have "int (nat z) < int (2 ^ (n + 1))" by (simp only: of_nat_less_iff)
  then have b: "z < 2 ^ (n + 1)" using assms by simp
  from a b show ?thesis by (rule that)
qed

lemma pow2_int_less_imp: "(2 :: int) ^ a < 2 ^ b \<Longrightarrow> a < b"
  by simp

lemma pow2_int_le_imp: "(2 :: int) ^ a \<le> 2 ^ b \<Longrightarrow> a \<le> b"
  by simp

lemma split_rounding_pos:
  fixes A z :: int
  assumes A: "2 ^ 23 \<le> A" "A < 2 ^ 24" and z: "1 \<le> z" "z \<le> 2 ^ 15"
  shows "round_value (round_value (of_int (A * z) / 2 ^ 24) +
                      round_value (of_int ((2 ^ 24 - A) * z) / 2 ^ 24)) = of_int z"
proof -
  define B where "B = 2 ^ 24 - A"
  define P where "P = A * z"
  define Q where "Q = B * z"
  have B: "0 < B" "B \<le> A" unfolding B_def using A by simp_all
  have Ppos: "0 < P" unfolding P_def using A z by simp
  have Qpos: "0 < Q" unfolding Q_def using B z by simp
  have QP: "Q \<le> P" unfolding P_def Q_def using B z by (intro mult_right_mono) simp_all
  have PQ: "P + Q = 2 ^ 24 * z" unfolding P_def Q_def B_def by (simp add: algebra_simps)
  have Pz: "P < 2 ^ 24 * z" unfolding P_def using A z by (intro mult_strict_right_mono) simp_all
  have "2 ^ 24 * z \<le> 2 ^ 24 * (2 :: int) ^ 15" using z by (intro mult_left_mono) simp_all
  with Pz have P39: "P < 2 ^ 39" by simp
  then have P40: "P < 2 ^ 40" by simp
  with QP have Q40: "Q < 2 ^ 40" by simp
  define g1 where "g1 = grid P"
  define g2 where "g2 = grid Q"
  note p = grid_props [OF Ppos P40, folded g1_def]
  note q = grid_props [OF Qpos Q40, folded g2_def]
  have g21: "g2 \<le> g1"
  proof (cases "g2 = 0")
    case True then show ?thesis by simp
  next
    case False
    with q(3) have "2 ^ (g2 + 23) \<le> Q" by simp
    also note QP
    also note p(2)
    finally have "g2 + 23 < g1 + 24" by (rule pow2_int_less_imp)
    then show ?thesis by simp
  qed
  have g1pos: "2 ^ (g1 + 23) \<le> P" if "0 < g1" using p(3) that by simp
  have g115: "g1 \<le> 15"
  proof (cases "g1 = 0")
    case True then show ?thesis by simp
  next
    case False
    then have "2 ^ (g1 + 23) \<le> P" using g1pos by simp
    also note P39
    finally have "g1 + 23 < 39" by (rule pow2_int_less_imp)
    then show ?thesis by simp
  qed
  obtain ez :: nat where ez: "2 ^ ez \<le> z" "z < 2 ^ (ez + 1)"
    using z(1) by (rule int_binade)
  from ez(1) z(2) have "(2 :: int) ^ ez \<le> 2 ^ 15" by simp
  then have ez15: "ez \<le> 15" by (rule pow2_int_le_imp)
  define d where "d = g1 - g2"
  define h where "h = 24 - g1"
  have d: "g1 = g2 + d" unfolding d_def using g21 by simp
  have h: "24 = g1 + h" unfolding h_def using g115 by simp
  define a :: int where "a = 2 ^ g2"
  define K :: int where "K = 2 ^ d"
  define H :: int where "H = 2 ^ h"
  have apos: "0 < a" and Kpos: "0 < K" and Hpos: "0 < H" unfolding a_def K_def H_def by simp_all
  have pg1: "(2 :: int) ^ g1 = a * K" unfolding a_def K_def d by (simp add: power_add)
  have p24: "(2 :: int) ^ 24 = a * K * H" unfolding h pg1 [symmetric] H_def by (simp add: power_add)
  have Kc: "K = 1 \<or> (0 < K \<and> even K)"
    unfolding K_def by (cases d) simp_all
  define S where "S = H * z"
  define t :: rat where "t = of_int P / of_int (a * K)"
  define n1 where "n1 = round_half_even t"
  define n2 where "n2 = round_half_even (of_int K * (of_int S - t))"
  have Qa: "of_int Q / of_int a = of_int K * (of_int S - t)"
  proof -
    have "Q = a * K * H * z - P" using PQ unfolding p24 by simp
    then have "(of_int Q :: rat) = of_int a * (of_int K * of_int S) - of_int P"
      unfolding S_def by (simp add: mult.assoc)
    then have "(of_int Q :: rat) / of_int a = of_int K * of_int S - of_int P / of_int a"
      using apos by (simp add: diff_divide_distrib)
    moreover have "of_int K * t = of_int P / of_int a"
      unfolding t_def using Kpos by simp
    ultimately show ?thesis by (simp add: right_diff_distrib)
  qed
  have v1: "round_value (of_int P / 2 ^ 24) = of_int (n1 * (a * K)) / 2 ^ 24"
    using p(1) unfolding n1_def t_def pg1 [symmetric] by simp
  have v2: "round_value (of_int Q / 2 ^ 24) = of_int (n2 * a) / 2 ^ 24"
    using q(1) unfolding n2_def Qa [symmetric] a_def by simp
  define Dn where "Dn = K * n1 + n2 - K * S"
  define D where "D = a * Dn"
  note cr = complement_rounding [OF Kc, of t S, folded n1_def n2_def]
  have cr1: "\<bar>Dn\<bar> \<le> (if K = 1 then 1 else K div 2)" using cr(1) unfolding Dn_def .
  have "n1 * (a * K) + n2 * a = a * K * H * z + D"
    unfolding D_def Dn_def S_def by (simp add: algebra_simps)
  then have "(of_int (n1 * (a * K)) + of_int (n2 * a) :: rat) = of_int (2 ^ 24 * z + D)"
    unfolding p24 by (simp only: of_int_add [symmetric])
  then have sum: "round_value (of_int P / 2 ^ 24) + round_value (of_int Q / 2 ^ 24)
             = of_int z + of_int D / 2 ^ 24"
    unfolding v1 v2 by (simp add: add_divide_distrib [symmetric] del: of_int_add of_int_mult)
  have Dez: "\<bar>D\<bar> \<le> 2 ^ ez"
  proof (cases "d = 0")
    case True
    then have K1: "K = 1" and g12: "g1 = g2" unfolding K_def d by simp_all
    with cr1 have "\<bar>Dn\<bar> \<le> 1" by simp
    then have "\<bar>D\<bar> \<le> a" unfolding D_def using apos by (simp add: abs_mult)
    also have "a \<le> 2 ^ ez"
    proof (cases "g1 = 0")
      case True
      then show ?thesis unfolding a_def g12 [symmetric] by simp
    next
      case False
      then have "2 ^ (g1 + 23) \<le> P" using g1pos by simp
      moreover from False q(3) have "2 ^ (g1 + 23) \<le> Q" unfolding g12 by simp
      ultimately have "2 * 2 ^ (g1 + 23) \<le> 2 ^ 24 * z" unfolding PQ [symmetric] by simp
      then have "2 ^ 24 * 2 ^ g1 \<le> 2 ^ 24 * z" by (simp add: power_add)
      then have "2 ^ g1 \<le> z" by simp
      with ez(2) have "(2 :: int) ^ g1 < 2 ^ (ez + 1)" by simp
      then have "g1 < ez + 1" by (rule pow2_int_less_imp)
      then have "(2 :: int) ^ g1 \<le> 2 ^ ez" by simp
      then show ?thesis unfolding a_def g12 .
    qed
    finally show ?thesis .
  next
    case False
    then obtain d' where d': "d = Suc d'" by (cases d) simp_all
    then have K2: "K = 2 * 2 ^ d'" unfolding K_def by simp
    then have "even K" by simp
    then have K1: "K \<noteq> 1" by auto
    have "K div 2 = 2 ^ d'" unfolding K2 by simp
    with cr1 K1 have "\<bar>Dn\<bar> \<le> 2 ^ d'" by simp
    then have "\<bar>D\<bar> \<le> a * 2 ^ d'"
      unfolding D_def using apos by (simp add: abs_mult)
    also have "a * 2 ^ d' \<le> 2 ^ ez"
    proof -
      have g1s: "g1 = Suc (g2 + d')" unfolding d d' by simp
      then have "2 ^ (g1 + 23) \<le> P" using g1pos by simp
      with Pz have "2 ^ (g1 + 23) < 2 ^ 24 * z" by simp
      then have "2 ^ 24 * 2 ^ (g2 + d') < 2 ^ 24 * z" unfolding g1s by (simp add: power_add)
      then have "2 ^ (g2 + d') < z" by simp
      with ez(2) have "(2 :: int) ^ (g2 + d') < 2 ^ (ez + 1)" by simp
      then have "g2 + d' < ez + 1" by (rule pow2_int_less_imp)
      then have "(2 :: int) ^ (g2 + d') \<le> 2 ^ ez" by simp
      then show ?thesis unfolding a_def by (simp add: power_add)
    qed
    finally show ?thesis .
  qed
  have Dex: "D = 0 \<or> z \<noteq> 2 ^ ez"
  proof (cases "z = 2 ^ ez")
    case False then show ?thesis by simp
  next
    case True
    have "g1 \<le> ez"
    proof (cases "g1 = 0")
      case True then show ?thesis by simp
    next
      case False
      then have "2 ^ (g1 + 23) \<le> P" using g1pos by simp
      also have "P < 2 ^ 24 * 2 ^ ez" using Pz unfolding True .
      also have "\<dots> = 2 ^ (24 + ez)" by (simp add: power_add)
      finally have "g1 + 23 < 24 + ez" by (rule pow2_int_less_imp)
      then show ?thesis by simp
    qed
    then have "ez = g1 + (ez - g1)" by simp
    then obtain r where r: "ez = g1 + r" ..
    have "P = A * 2 ^ r * (a * K)" unfolding P_def True r pg1 [symmetric] by (simp add: power_add)
    then have "t = of_int (A * 2 ^ r)" unfolding t_def using apos Kpos by simp
    then have "t = of_int n1" unfolding n1_def by (simp only: round_half_even_of_int)
    from cr(2) [OF this] have "Dn = 0" unfolding Dn_def by simp
    then show ?thesis unfolding D_def by simp
  qed
  have "round_value (of_int z + of_int D / 2 ^ 24) = of_int z"
    using ez ez15 Dez Dex by (rule round_value_near_int)
  then show ?thesis unfolding sum [symmetric] P_def Q_def B_def .
qed

lemma split_rounding:
  fixes A z :: int
  assumes A: "2 ^ 23 \<le> A" "A < 2 ^ 24" and z: "\<bar>z\<bar> \<le> 2 ^ 15"
  shows "round_value (round_value (of_int (A * z) / 2 ^ 24) +
                      round_value (of_int ((2 ^ 24 - A) * z) / 2 ^ 24)) = of_int z"
proof -
  consider "1 \<le> z" | "z = 0" | "1 \<le> - z" by linarith
  then show ?thesis
  proof cases
    case 1
    with z have "z \<le> 2 ^ 15" by simp
    with A 1 show ?thesis by (intro split_rounding_pos)
  next
    case 2
    have "round_value (of_int 0) = of_int 0" by (rule round_value_int) simp
    then show ?thesis unfolding 2 by simp
  next
    case 3
    from z have "- z \<le> 2 ^ 15" by simp
    from split_rounding_pos [OF A 3 this]
    have "round_value (- round_value (of_int (A * z) / 2 ^ 24) +
                       - round_value (of_int ((2 ^ 24 - A) * z) / 2 ^ 24)) = - of_int z"
      by (simp add: round_value_neg)
    then have "- round_value (round_value (of_int (A * z) / 2 ^ 24) +
                       round_value (of_int ((2 ^ 24 - A) * z) / 2 ^ 24)) = - of_int z"
      by (simp only: round_value_neg [symmetric] minus_add_distrib)
    then show ?thesis by (simp only: neg_equal_iff_equal)
  qed
qed

lemma round_value_mult_mono:
  fixes N x y :: int
  assumes N: "0 \<le> N" "N \<le> 2 ^ 24" and xy: "x \<le> y" and x: "\<bar>x\<bar> \<le> 2 ^ 15" and y: "\<bar>y\<bar> \<le> 2 ^ 15"
  shows "round_value (of_int (N * x) / 2 ^ 24) \<le> round_value (of_int (N * y) / 2 ^ 24)"
    and "\<bar>round_value (of_int (N * x) / 2 ^ 24)\<bar> \<le> 2 powi 15"
proof -
  have b: "\<bar>(of_int (N * w) :: rat) / 2 ^ 24\<bar> \<le> 2 powi 15" if "\<bar>w\<bar> \<le> 2 ^ 15" for w :: int
  proof -
    have "\<bar>N * w\<bar> = N * \<bar>w\<bar>" using N by (simp add: abs_mult)
    also have "\<dots> \<le> 2 ^ 24 * 2 ^ 15" using N that by (intro mult_mono) simp_all
    finally have "(of_int \<bar>N * w\<bar> :: rat) \<le> of_int (2 ^ 24 * 2 ^ 15)" by (simp only: of_int_le_iff)
    then show ?thesis by simp
  qed
  have c: "(2 :: rat) powi 15 \<le> 2 powi 126" by (intro power_int_increasing) simp_all
  have "N * x \<le> N * y" using N xy by (intro mult_left_mono) simp_all
  then have "(of_int (N * x) :: rat) \<le> of_int (N * y)" by (simp only: of_int_le_iff)
  then have "(of_int (N * x) :: rat) / 2 ^ 24 \<le> of_int (N * y) / 2 ^ 24"
    by (simp add: divide_right_mono)
  then show "round_value (of_int (N * x) / 2 ^ 24) \<le> round_value (of_int (N * y) / 2 ^ 24)"
    using b [OF x] b [OF y] c by (intro round_value_mono) simp_all
  show "\<bar>round_value (of_int (N * x) / 2 ^ 24)\<bar> \<le> 2 powi 15"
    using b [OF x] by (intro round_value_le) simp_all
qed

lemma split_rounding_mono:
  fixes A x y x' y' :: int
  assumes A: "0 \<le> A" "A \<le> 2 ^ 24"
    and le: "x \<le> x'" "y \<le> y'"
    and b: "\<bar>x\<bar> \<le> 2 ^ 15" "\<bar>y\<bar> \<le> 2 ^ 15" "\<bar>x'\<bar> \<le> 2 ^ 15" "\<bar>y'\<bar> \<le> 2 ^ 15"
  shows "round_value (round_value (of_int (A * x) / 2 ^ 24) +
                      round_value (of_int ((2 ^ 24 - A) * y) / 2 ^ 24))
       \<le> round_value (round_value (of_int (A * x') / 2 ^ 24) +
                      round_value (of_int ((2 ^ 24 - A) * y') / 2 ^ 24))"
proof -
  have B: "0 \<le> 2 ^ 24 - A" "2 ^ 24 - A \<le> 2 ^ 24" using A by simp_all
  note p = round_value_mult_mono [OF A le(1) b(1,3)] round_value_mult_mono(2) [OF A order_refl b(3) b(3)]
  note q = round_value_mult_mono [OF B le(2) b(2,4)] round_value_mult_mono(2) [OF B order_refl b(4) b(4)]
  have c: "(2 :: rat) powi 15 + 2 powi 15 \<le> 2 powi 126"
  proof -
    have "(2 :: rat) powi 15 + 2 powi 15 = 2 powi 16" by simp
    also have "\<dots> \<le> 2 powi 126" by (intro power_int_increasing) simp_all
    finally show ?thesis .
  qed
  show ?thesis
  proof (rule round_value_mono)
    show "round_value (of_int (A * x) / 2 ^ 24) + round_value (of_int ((2 ^ 24 - A) * y) / 2 ^ 24)
        \<le> round_value (of_int (A * x') / 2 ^ 24) + round_value (of_int ((2 ^ 24 - A) * y') / 2 ^ 24)"
      using p(1) q(1) by (rule add_mono)
    show "\<bar>round_value (of_int (A * x) / 2 ^ 24) + round_value (of_int ((2 ^ 24 - A) * y) / 2 ^ 24)\<bar>
        \<le> 2 powi 126"
      using p(2) q(2) c by linarith
    show "\<bar>round_value (of_int (A * x') / 2 ^ 24) + round_value (of_int ((2 ^ 24 - A) * y') / 2 ^ 24)\<bar>
        \<le> 2 powi 126"
      using p(3) q(3) c by linarith
  qed
qed

lemma split_rounding_between:
  fixes A x y :: int
  assumes A: "2 ^ 23 \<le> A" "A < 2 ^ 24" and b: "\<bar>x\<bar> \<le> 2 ^ 15" "\<bar>y\<bar> \<le> 2 ^ 15"
  defines "v \<equiv> round_value (round_value (of_int (A * x) / 2 ^ 24) +
                              round_value (of_int ((2 ^ 24 - A) * y) / 2 ^ 24))"
  shows "of_int (min x y) \<le> v" and "v \<le> of_int (max x y)"
proof -
  have A': "0 \<le> A" "A \<le> 2 ^ 24" using A by simp_all
  have lo: "\<bar>min x y\<bar> \<le> 2 ^ 15" and hi: "\<bar>max x y\<bar> \<le> 2 ^ 15"
    using b by (simp_all add: min_def max_def)
  from split_rounding_mono [OF A' _ _ lo lo b, of ] split_rounding [OF A lo]
  show "of_int (min x y) \<le> v" unfolding v_def by simp
  from split_rounding_mono [OF A' _ _ b hi hi] split_rounding [OF A hi]
  show "v \<le> of_int (max x y)" unfolding v_def by simp
qed

subsection \<open>The error of the three roundings\<close>

lemma float_exponent_bound:
  assumes "\<bar>x\<bar> \<le> 2 powi k" "- 126 \<le> k"
  shows "float_exponent x \<le> k"
proof (cases "float_exponent x = - 126")
  case True
  with assms(2) show ?thesis by simp
next
  case False
  with float_exponent_pow_le [of x] assms(1) have "(2 :: rat) powi float_exponent x \<le> 2 powi k"
    by simp
  then show ?thesis by (rule pow2_le_imp)
qed

lemma round_value_near:
  assumes "\<bar>x\<bar> \<le> 2 powi k" "- 126 \<le> k"
  shows "\<bar>round_value x - x\<bar> \<le> 2 powi (k - 24)"
proof -
  define q :: rat where "q = 2 powi (float_exponent x - 23)"
  have qpos: "0 < q" unfolding q_def by simp
  have "round_value x - x = (of_int (round_half_even (x / q)) - x / q) * q"
    unfolding round_value_def q_def [symmetric] using qpos by (simp add: algebra_simps)
  then have "\<bar>round_value x - x\<bar> = \<bar>of_int (round_half_even (x / q)) - x / q\<bar> * q"
    using qpos by (simp add: abs_mult)
  also have "\<dots> \<le> 1 / 2 * q"
    using round_half_even_near [of "x / q"] qpos by (intro mult_right_mono) simp_all
  also have "1 / 2 * q = 2 powi (float_exponent x - 24)"
  proof -
    have "(2 :: rat) powi (float_exponent x - 24 + 1) = 2 powi (float_exponent x - 24) * 2 powi 1"
      by (intro power_int_add) simp
    moreover have "float_exponent x - 24 + 1 = float_exponent x - 23" by simp
    ultimately have "q = 2 powi (float_exponent x - 24) * 2" unfolding q_def by simp
    then show ?thesis by simp
  qed
  also have "\<dots> \<le> 2 powi (k - 24)"
    using float_exponent_bound [OF assms] by (intro power_int_increasing) simp_all
  finally show ?thesis .
qed

lemma split_rounding_near:
  fixes A x y :: int
  assumes A: "0 \<le> A" "A \<le> 2 ^ 24" and b: "\<bar>x\<bar> \<le> 2 ^ 15" "\<bar>y\<bar> \<le> 2 ^ 15"
  shows "\<bar>round_value (round_value (of_int (A * x) / 2 ^ 24) +
                       round_value (of_int ((2 ^ 24 - A) * y) / 2 ^ 24))
         - of_int (A * x + (2 ^ 24 - A) * y) / 2 ^ 24\<bar> \<le> 1 / 128"
proof -
  define B where "B = 2 ^ 24 - A"
  have B: "0 \<le> B" "B \<le> 2 ^ 24" unfolding B_def using A by simp_all
  define u1 :: rat where "u1 = of_int (A * x) / 2 ^ 24"
  define u2 :: rat where "u2 = of_int (B * y) / 2 ^ 24"
  have prod: "\<bar>(of_int (N * w) :: rat) / 2 ^ 24\<bar> \<le> 2 powi 15"
    if "0 \<le> N" "N \<le> 2 ^ 24" "\<bar>w\<bar> \<le> 2 ^ 15" for N w :: int
  proof -
    have "\<bar>N * w\<bar> = N * \<bar>w\<bar>" using that by (simp add: abs_mult)
    also have "\<dots> \<le> 2 ^ 24 * 2 ^ 15" using that by (intro mult_mono) simp_all
    finally have "(of_int \<bar>N * w\<bar> :: rat) \<le> of_int (2 ^ 24 * 2 ^ 15)" by (simp only: of_int_le_iff)
    then show ?thesis by simp
  qed
  have a1: "\<bar>u1\<bar> \<le> 2 powi 15" unfolding u1_def using A b(1) by (rule prod)
  have a2: "\<bar>u2\<bar> \<le> 2 powi 15" unfolding u2_def using B b(2) by (rule prod)
  have e1: "\<bar>round_value u1 - u1\<bar> \<le> 1 / 512"
    using round_value_near [OF a1] by simp
  have e2: "\<bar>round_value u2 - u2\<bar> \<le> 1 / 512"
    using round_value_near [OF a2] by simp
  have r1: "\<bar>round_value u1\<bar> \<le> 2 powi 15" using a1 by (intro round_value_le) simp_all
  have r2: "\<bar>round_value u2\<bar> \<le> 2 powi 15" using a2 by (intro round_value_le) simp_all
  have "\<bar>round_value u1 + round_value u2\<bar> \<le> 2 powi 15 + 2 powi 15" using r1 r2 by linarith
  also have "(2 :: rat) powi 15 + 2 powi 15 = 2 powi 16" by simp
  finally have "\<bar>round_value u1 + round_value u2\<bar> \<le> 2 powi 16" .
  from round_value_near [OF this]
  have e3: "\<bar>round_value (round_value u1 + round_value u2) - (round_value u1 + round_value u2)\<bar>
              \<le> 1 / 256" by simp
  have eq: "(of_int (A * x + B * y) :: rat) / 2 ^ 24 = u1 + u2"
    unfolding u1_def u2_def by (simp add: add_divide_distrib)
  have "\<bar>round_value (round_value u1 + round_value u2) - of_int (A * x + B * y) / 2 ^ 24\<bar> \<le> 1 / 128"
    unfolding eq using e1 e2 e3 by linarith
  then show ?thesis unfolding u1_def u2_def B_def .
qed

lemma convex_distance:
  fixes v a :: rat and c y :: int
  assumes v: "\<bar>v - (a * of_int c + (1 - a) * of_int y)\<bar> \<le> e" and a: "a \<le> 1"
  shows "of_int \<bar>trunc_rat v - c\<bar> \<le> (1 - a) * of_int \<bar>y - c\<bar> + (1 + e)"
proof -
  define u :: rat where "u = a * of_int c + (1 - a) * of_int y"
  have "u - of_int c = (1 - a) * of_int (y - c)" unfolding u_def by (simp add: algebra_simps)
  then have uc: "\<bar>u - of_int c\<bar> = (1 - a) * of_int \<bar>y - c\<bar>" using a by (simp add: abs_mult)
  have "(of_int \<bar>trunc_rat v - c\<bar> :: rat) = \<bar>of_int (trunc_rat v) - of_int c\<bar>" by simp
  also have "\<dots> \<le> \<bar>of_int (trunc_rat v) - v\<bar> + \<bar>v - u\<bar> + \<bar>u - of_int c\<bar>" by linarith
  also have "\<dots> \<le> 1 + e + \<bar>u - of_int c\<bar>"
    using trunc_rat_near [of v] v unfolding u_def by linarith
  finally show ?thesis unfolding uc by simp
qed

lemma filter_sample_upper_step:
  assumes a: "alpha s = Num (of_int A / 2 ^ 24)" and A: "2 ^ 23 \<le> A" "A < 2 ^ 24"
    and lo: "min_val s = - 32768" and hi: "max_val s = 32767"
  shows "\<exists>s'. filter_sample s c = Some (prev_output s', s') \<and>
           alpha s' = Num (of_int A / 2 ^ 24) \<and> min_val s' = - 32768 \<and> max_val s' = 32767 \<and>
           \<bar>sint (prev_output s') - sint c\<bar> \<le> \<bar>sint (prev_output s) - sint c\<bar> \<and>
           of_int \<bar>sint (prev_output s') - sint c\<bar>
             \<le> (1 - of_int A / 2 ^ 24) * of_int \<bar>sint (prev_output s) - sint c\<bar> + (129 / 128 :: rat)"
proof -
  define x where "x = sint c"
  define y where "y = sint (prev_output s)"
  define B where "B = 2 ^ 24 - A"
  have bx: "- 32768 \<le> x" "x \<le> 32767" and "by": "- 32768 \<le> y" "y \<le> 32767"
    unfolding x_def y_def by (rule sint16_bounds)+
  then have ax: "\<bar>x\<bar> \<le> 2 ^ 15" and ay: "\<bar>y\<bar> \<le> 2 ^ 15" by simp_all
  have A': "0 \<le> A" "A \<le> 2 ^ 24" and B': "0 \<le> B" "B \<le> 2 ^ 24" using A unfolding B_def by simp_all
  have fx: "float_of_int16 c = Num (of_int x)" and fy: "float_of_int16 (prev_output s) = Num (of_int y)"
    by (simp_all add: float_of_int16_def x_def y_def del: of_int_sint)
  define r1 where "r1 = round_value (of_int (A * x) / 2 ^ 24)"
  define r2 where "r2 = round_value (of_int (B * y) / 2 ^ 24)"
  define v where "v = round_value (r1 + r2)"
  have big: "(2 :: rat) powi 15 \<le> 2 powi 127" "(2 :: rat) powi 16 \<le> 2 powi 127"
    by (intro power_int_increasing, simp, simp)+
  have ar1: "\<bar>r1\<bar> \<le> 2 powi 15" unfolding r1_def
    using A' order_refl ax ax by (rule round_value_mult_mono(2))
  have ar2: "\<bar>r2\<bar> \<le> 2 powi 15" unfolding r2_def
    using B' order_refl ay ay by (rule round_value_mult_mono(2))
  have prod: "\<bar>(of_int (N * w) :: rat) / 2 ^ 24\<bar> \<le> 2 powi 127"
    if "0 \<le> N" "N \<le> 2 ^ 24" "\<bar>w\<bar> \<le> 2 ^ 15" for N w :: int
  proof -
    have "\<bar>N * w\<bar> = N * \<bar>w\<bar>" using that by (simp add: abs_mult)
    also have "\<dots> \<le> 2 ^ 24 * 2 ^ 15" using that by (intro mult_mono) simp_all
    finally have "(of_int \<bar>N * w\<bar> :: rat) \<le> of_int (2 ^ 24 * 2 ^ 15)" by (simp only: of_int_le_iff)
    then have "\<bar>(of_int (N * w) :: rat) / 2 ^ 24\<bar> \<le> 2 powi 15" by simp
    then show ?thesis using big(1) by (rule order_trans)
  qed
  have p1: "fmul (Num (of_int A / 2 ^ 24)) (Num (of_int x)) = Num r1"
  proof -
    have e: "(of_int A :: rat) / 2 ^ 24 * of_int x = of_int (A * x) / 2 ^ 24" by simp
    show ?thesis unfolding fmul.simps e r1_def
      using prod [OF A' ax] by (rule round32_value)
  qed
  have b: "fsub (Num 1) (Num (of_int A / 2 ^ 24)) = Num (of_int B / 2 ^ 24)"
  proof -
    have e: "(1 :: rat) + - (of_int A / 2 ^ 24) = of_int B * 2 powi (- 24)"
      unfolding B_def by (simp add: field_simps power_int_minus)
    have "\<bar>B\<bar> < 2 ^ 24" using A unfolding B_def by simp
    moreover have "(of_int \<bar>B\<bar> :: rat) \<le> of_int (2 ^ 24)" using B' by (simp only: of_int_le_iff)
    then have "\<bar>of_int B * 2 powi (- 24) :: rat\<bar> < 2 powi 128" by (simp add: abs_mult power_int_minus)
    ultimately have "round32 (of_int B * 2 powi (- 24)) = Num (of_int B * 2 powi (- 24))"
      by (intro round32_exact) simp_all
    then have "fsub (Num 1) (Num (of_int A / 2 ^ 24)) = Num (of_int B * 2 powi (- 24))"
      by (simp only: fsub_def fneg.simps fadd.simps e)
    then show ?thesis by (simp add: power_int_minus field_simps)
  qed
  have p2: "fmul (Num (of_int B / 2 ^ 24)) (Num (of_int y)) = Num r2"
  proof -
    have e: "(of_int B :: rat) / 2 ^ 24 * of_int y = of_int (B * y) / 2 ^ 24" by simp
    show ?thesis unfolding fmul.simps e r2_def
      using prod [OF B' ay] by (rule round32_value)
  qed
  have su: "fadd (Num r1) (Num r2) = Num v"
  proof -
    have "\<bar>r1 + r2\<bar> \<le> 2 powi 15 + 2 powi 15" using ar1 ar2 by linarith
    also have "(2 :: rat) powi 15 + 2 powi 15 = 2 powi 16" by simp
    finally have "\<bar>r1 + r2\<bar> \<le> 2 powi 16" .
    then have "\<bar>r1 + r2\<bar> \<le> 2 powi 127" using big(2) by (rule order_trans)
    then show ?thesis unfolding fadd.simps v_def by (rule round32_value)
  qed
  note bt = split_rounding_between [OF A ax ay, folded B_def, folded r1_def r2_def, folded v_def]
  note nr = split_rounding_near [OF A' ax ay, folded B_def, folded r1_def r2_def, folded v_def]
  have mlo: "- 32768 \<le> min x y" and mhi: "max x y \<le> 32767"
    using bx "by" by simp_all
  have vlo: "(of_int (sint (- 32768 :: int16_t)) :: rat) \<le> v"
  proof -
    have "(of_int (- 32768) :: rat) \<le> of_int (min x y)" using mlo by (simp only: of_int_le_iff)
    then have "(of_int (- 32768) :: rat) \<le> v" using bt(1) by (rule order_trans)
    then show ?thesis by simp
  qed
  have vhi: "v \<le> of_int (sint (32767 :: int16_t))"
  proof -
    have "(of_int (max x y) :: rat) \<le> of_int 32767" using mhi by (simp only: of_int_le_iff)
    with bt(2) have "v \<le> of_int 32767" by (rule order_trans)
    then show ?thesis by simp
  qed
  have cl: "clamp_float (Num v) (- 32768) 32767 = Num v"
    using vlo vhi by (rule clamp_float_Num)
  define t where "t = trunc_rat v"
  from trunc_rat_bounds [OF bt] have tb: "min x y \<le> t" "t \<le> max x y" unfolding t_def by simp_all
  with mlo mhi have tr: "- 32768 \<le> t" "t \<le> 32767" by linarith+
  then have st: "sint (word_of_int t :: int16_t) = t" by (rule sint16_of_int)
  let ?s' = "s\<lparr>prev_output := word_of_int t\<rparr>"
  have run: "filter_sample s c = Some (prev_output ?s', ?s')"
    unfolding filter_sample_unfold a lo hi fx fy p1 b p2 su cl using tr unfolding t_def by simp
  have p: "sint (prev_output ?s') = t" using st by simp
  have d1: "\<bar>t - x\<bar> \<le> \<bar>y - x\<bar>" using tb by (auto simp: min_def max_def split: if_splits)
  have d2: "of_int \<bar>t - x\<bar> \<le> (1 - of_int A / 2 ^ 24) * of_int \<bar>y - x\<bar> + (129 / 128 :: rat)"
  proof -
    have eq: "(of_int (A * x + B * y) :: rat) / 2 ^ 24
            = of_int A / 2 ^ 24 * of_int x + (1 - of_int A / 2 ^ 24) * of_int y"
      unfolding B_def by (simp add: field_simps)
    have "\<bar>v - (of_int A / 2 ^ 24 * of_int x + (1 - of_int A / 2 ^ 24) * of_int y)\<bar> \<le> 1 / 128"
      using nr unfolding eq .
    moreover have "(of_int A :: rat) / 2 ^ 24 \<le> 1"
    proof -
      have "(of_int A :: rat) \<le> of_int (2 ^ 24)" using A' by (simp only: of_int_le_iff)
      then show ?thesis by simp
    qed
    ultimately have "of_int \<bar>trunc_rat v - x\<bar>
        \<le> (1 - of_int A / 2 ^ 24) * of_int \<bar>y - x\<bar> + (1 + 1 / 128 :: rat)"
      by (rule convex_distance)
    then show ?thesis unfolding t_def by simp
  qed
  have "alpha ?s' = Num (of_int A / 2 ^ 24)" "min_val ?s' = - 32768" "max_val ?s' = 32767"
    using a lo hi by simp_all
  moreover have "\<bar>sint (prev_output ?s') - sint c\<bar> \<le> \<bar>sint (prev_output s) - sint c\<bar>"
    unfolding p using d1 unfolding x_def y_def .
  moreover have "of_int \<bar>sint (prev_output ?s') - sint c\<bar>
      \<le> (1 - of_int A / 2 ^ 24) * of_int \<bar>sint (prev_output s) - sint c\<bar> + (129 / 128 :: rat)"
    unfolding p using d2 unfolding x_def y_def .
  ultimately show ?thesis using run by blast
qed

subsection \<open>A constant input\<close>

lemma constant_stream_upper:
  assumes "alpha s = Num (of_int A / 2 ^ 24)" "2 ^ 23 \<le> A" "A < 2 ^ 24"
    "min_val s = - 32768" "max_val s = 32767"
  shows "\<exists>s1. constant_stream s c n = Some s1 \<and>
           alpha s1 = Num (of_int A / 2 ^ 24) \<and> min_val s1 = - 32768 \<and> max_val s1 = 32767 \<and>
           of_int A / 2 ^ 24 * of_int \<bar>sint (prev_output s1) - sint c\<bar>
             \<le> of_int A / 2 ^ 24 * (1 - of_int A / 2 ^ 24) ^ n * of_int \<bar>sint (prev_output s) - sint c\<bar>
                 + (129 / 128 * (1 - (1 - of_int A / 2 ^ 24) ^ n) :: rat)"
  using assms
proof (induction n arbitrary: s)
  case 0
  then show ?case by simp
next
  case (Suc n)
  define a :: rat where "a = of_int A / 2 ^ 24"
  define k :: rat where "k = 1 - a"
  define K :: rat where "K = 129 / 128"
  have apos: "0 < a" using Suc.prems(2) unfolding a_def by simp
  have kpos: "0 \<le> k"
  proof -
    have "(of_int A :: rat) \<le> of_int (2 ^ 24)" using Suc.prems(3) by (simp only: of_int_le_iff)
    then show ?thesis unfolding k_def a_def by simp
  qed
  from filter_sample_upper_step [OF Suc.prems, of c] obtain s' where
    s': "filter_sample s c = Some (prev_output s', s')"
      "alpha s' = Num (of_int A / 2 ^ 24)" "min_val s' = - 32768" "max_val s' = 32767"
      "of_int \<bar>sint (prev_output s') - sint c\<bar>
         \<le> k * of_int \<bar>sint (prev_output s) - sint c\<bar> + K"
    unfolding k_def a_def K_def by blast
  from Suc.IH [OF s'(2) Suc.prems(2,3) s'(3,4)] obtain s1 where
    s1: "constant_stream s' c n = Some s1"
      "alpha s1 = Num (of_int A / 2 ^ 24)" "min_val s1 = - 32768" "max_val s1 = 32767"
      "a * of_int \<bar>sint (prev_output s1) - sint c\<bar>
         \<le> a * k ^ n * of_int \<bar>sint (prev_output s') - sint c\<bar> + K * (1 - k ^ n)"
    unfolding k_def a_def K_def by blast
  define D0 :: rat where "D0 = of_int \<bar>sint (prev_output s) - sint c\<bar>"
  define D' :: rat where "D' = of_int \<bar>sint (prev_output s') - sint c\<bar>"
  define D1 :: rat where "D1 = of_int \<bar>sint (prev_output s1) - sint c\<bar>"
  have "a * k ^ n * D' \<le> a * k ^ n * (k * D0 + K)"
    using s'(5) apos kpos unfolding D'_def D0_def by (intro mult_left_mono) simp_all
  with s1(5) have "a * D1 \<le> a * k ^ n * (k * D0 + K) + K * (1 - k ^ n)"
    unfolding D1_def D'_def by simp
  also have "\<dots> = a * k ^ Suc n * D0 + (a * k ^ n * K + K * (1 - k ^ n))"
    by (simp add: algebra_simps)
  also have "a * k ^ n * K + K * (1 - k ^ n) = K * (1 - k ^ Suc n)"
    unfolding k_def by (simp add: algebra_simps)
  finally have "a * D1 \<le> a * k ^ Suc n * D0 + K * (1 - k ^ Suc n)" .
  with s'(1) s1(1-4) show ?case
    unfolding D1_def D0_def k_def a_def K_def by simp
qed

lemma constant_input_upper:
  assumes "alpha s = Num (of_int A / 2 ^ 24)" "2 ^ 23 \<le> A" "A < 2 ^ 24"
    "min_val s = - 32768" "max_val s = 32767"
  shows "\<exists>s1 s2. constant_stream s c n = Some s1 \<and> constant_stream s c (Suc n) = Some s2 \<and>
           \<bar>sint (prev_output s2) - sint c\<bar> \<le> \<bar>sint (prev_output s1) - sint c\<bar> \<and>
           of_int \<bar>sint (prev_output s1) - sint c\<bar>
             \<le> (1 - of_int A / 2 ^ 24) ^ n * of_int \<bar>sint (prev_output s) - sint c\<bar>
                 + (129 / 128 / (of_int A / 2 ^ 24) :: rat)"
proof -
  define a :: rat where "a = of_int A / 2 ^ 24"
  have apos: "0 < a" using assms(2) unfolding a_def by simp
  have kpos: "0 \<le> 1 - a"
  proof -
    have "(of_int A :: rat) \<le> of_int (2 ^ 24)" using assms(3) by (simp only: of_int_le_iff)
    then show ?thesis unfolding a_def by simp
  qed
  from constant_stream_upper [OF assms, of c n] obtain s1 where
    s1: "constant_stream s c n = Some s1"
      "alpha s1 = Num (of_int A / 2 ^ 24)" "min_val s1 = - 32768" "max_val s1 = 32767"
      "a * of_int \<bar>sint (prev_output s1) - sint c\<bar>
         \<le> a * (1 - a) ^ n * of_int \<bar>sint (prev_output s) - sint c\<bar> + 129 / 128 * (1 - (1 - a) ^ n)"
    unfolding a_def by blast
  from filter_sample_upper_step [OF s1(2) assms(2,3) s1(3,4), of c] obtain s2 where
    s2: "filter_sample s1 c = Some (prev_output s2, s2)"
      "\<bar>sint (prev_output s2) - sint c\<bar> \<le> \<bar>sint (prev_output s1) - sint c\<bar>"
    by blast
  have run: "constant_stream s c (Suc n) = Some s2"
    unfolding constant_stream_Suc_end s1(1) using s2(1) by simp
  define D0 :: rat where "D0 = of_int \<bar>sint (prev_output s) - sint c\<bar>"
  define D1 :: rat where "D1 = of_int \<bar>sint (prev_output s1) - sint c\<bar>"
  define K :: rat where "K = 129 / 128"
  have Kpos: "0 \<le> K" unfolding K_def by simp
  have "0 \<le> (1 - a) ^ n" using kpos by simp
  with Kpos have "0 \<le> K * (1 - a) ^ n" by (rule mult_nonneg_nonneg)
  then have "K * (1 - (1 - a) ^ n) \<le> K" by (simp add: algebra_simps)
  moreover have "a * D1 \<le> a * (1 - a) ^ n * D0 + K * (1 - (1 - a) ^ n)"
    using s1(5) unfolding D1_def D0_def K_def .
  ultimately have "a * D1 \<le> a * (1 - a) ^ n * D0 + K" by linarith
  also have "\<dots> = a * ((1 - a) ^ n * D0 + K / a)"
    using apos by (simp add: algebra_simps)
  finally have "D1 \<le> (1 - a) ^ n * D0 + K / a"
    using apos by (simp only: mult_le_cancel_left_pos)
  with s1(1) run s2(2) show ?thesis unfolding D1_def D0_def a_def K_def by blast
qed

lemma constant_input_monotone:
  assumes "min_val s = - 32768" "max_val s = 32767" "alpha s = Num a"
    and "(\<exists>A. a = of_int A / 2 ^ 24 \<and> 2 ^ 23 \<le> A \<and> A < 2 ^ 24) \<or>
         (\<exists>m. a = of_int m / 256 \<and> 0 < m \<and> m < 256)"
  shows "\<exists>s1 s2. constant_stream s c n = Some s1 \<and> constant_stream s c (Suc n) = Some s2 \<and>
           \<bar>sint (prev_output s2) - sint c\<bar> \<le> \<bar>sint (prev_output s1) - sint c\<bar> \<and>
           of_int \<bar>sint (prev_output s1) - sint c\<bar>
             \<le> (1 - a) ^ n * of_int \<bar>sint (prev_output s) - sint c\<bar> + 129 / 128 / a \<and>
           ((\<exists>m. a = of_int m / 256 \<and> 0 < m \<and> m < 256) \<longrightarrow>
              of_int \<bar>sint (prev_output s1) - sint c\<bar>
                \<le> (1 - a) ^ n * of_int \<bar>sint (prev_output s) - sint c\<bar> + 1 / a)"
proof (cases "\<exists>m. a = of_int m / 256 \<and> 0 < m \<and> m < 256")
  case True
  then obtain m where m: "a = of_int m / 256" "0 < m" "m < 256" by blast
  have apos: "0 < a" using m by simp
  have al: "alpha s = Num (of_int m / 256)" using assms(3) m(1) by simp
  from constant_input_frac256 [OF al m(2,3) assms(1,2), of c n] obtain s1 s2 where
    r: "constant_stream s c n = Some s1" "constant_stream s c (Suc n) = Some s2"
      "\<bar>sint (prev_output s2) - sint c\<bar> \<le> \<bar>sint (prev_output s1) - sint c\<bar>"
      "of_int \<bar>sint (prev_output s1) - sint c\<bar>
         \<le> (1 - of_int m / 256) ^ n * of_int \<bar>sint (prev_output s) - sint c\<bar>
             + (256 / of_int m :: rat)"
    by blast
  have e: "256 / of_int m = 1 / a" unfolding m(1) by simp
  have "1 / a \<le> 129 / 128 / a" using apos by (simp add: field_simps)
  with r(4) have "of_int \<bar>sint (prev_output s1) - sint c\<bar>
      \<le> (1 - a) ^ n * of_int \<bar>sint (prev_output s) - sint c\<bar> + 129 / 128 / a"
    unfolding e m(1) [symmetric] by linarith
  moreover from r(4) have "of_int \<bar>sint (prev_output s1) - sint c\<bar>
      \<le> (1 - a) ^ n * of_int \<bar>sint (prev_output s) - sint c\<bar> + 1 / a"
    unfolding e m(1) [symmetric] .
  ultimately show ?thesis using r(1-3) by blast
next
  case False
  with assms(4) obtain A where A: "a = of_int A / 2 ^ 24" "2 ^ 23 \<le> A" "A < 2 ^ 24" by blast
  have al: "alpha s = Num (of_int A / 2 ^ 24)" using assms(3) A(1) by simp
  from constant_input_upper [OF al A(2,3) assms(1,2), of c n] False show ?thesis
    unfolding A(1) [symmetric] by blast
qed

section \<open>Coefficients between 0 and 1\<close>

text \<open>
  For every coefficient between \<open>0\<close> and \<open>1\<close> the four roundings of \<open>filter_sample\<close> (of
  \<open>1 - alpha\<close>, of the two products and of the sum) move the result by at most \<open>1 / 128\<close>,
  and the clamps do not move it further from the exact value, which lies between the input
  and the previous output.
\<close>

lemma round_value_error: "\<bar>round_value x - x\<bar> \<le> 2 powi (float_exponent x - 24)"
proof -
  define q :: rat where "q = 2 powi (float_exponent x - 23)"
  have qpos: "0 < q" unfolding q_def by simp
  have "round_value x - x = (of_int (round_half_even (x / q)) - x / q) * q"
    unfolding round_value_def q_def [symmetric] using qpos by (simp add: algebra_simps)
  then have "\<bar>round_value x - x\<bar> = \<bar>of_int (round_half_even (x / q)) - x / q\<bar> * q"
    using qpos by (simp add: abs_mult)
  also have "\<dots> \<le> 1 / 2 * q"
    using round_half_even_near [of "x / q"] qpos by (intro mult_right_mono) simp_all
  also have "1 / 2 * q = 2 powi (float_exponent x - 24)"
  proof -
    have "(2 :: rat) powi (float_exponent x - 24 + 1) = 2 powi (float_exponent x - 24) * 2 powi 1"
      by (intro power_int_add) simp
    moreover have "float_exponent x - 24 + 1 = float_exponent x - 23" by simp
    ultimately have "q = 2 powi (float_exponent x - 24) * 2" unfolding q_def by simp
    then show ?thesis by simp
  qed
  finally show ?thesis .
qed

lemma round_value_near_strict:
  assumes "\<bar>x\<bar> < 2 powi k" "- 125 \<le> k"
  shows "\<bar>round_value x - x\<bar> \<le> 2 powi (k - 25)"
proof -
  have "float_exponent x \<le> k - 1"
  proof (cases "float_exponent x = - 126")
    case True
    with assms(2) show ?thesis by simp
  next
    case False
    with float_exponent_pow_le [of x] assms(1) have "(2 :: rat) powi float_exponent x < 2 powi k"
      by simp
    then have "float_exponent x < k" by (rule pow2_less_imp)
    then show ?thesis by simp
  qed
  then have "(2 :: rat) powi (float_exponent x - 24) \<le> 2 powi (k - 25)"
    by (intro power_int_increasing) simp_all
  with round_value_error [of x] show ?thesis by (rule order_trans)
qed

lemma clamp_float_value:
  "sint lo \<le> sint hi \<Longrightarrow>
   clamp_float (Num v) lo hi = Num (max (of_int (sint lo)) (min v (of_int (sint hi))))"
proof -
  assume "sint lo \<le> sint hi"
  then have "(of_int (sint lo) :: rat) \<le> of_int (sint hi)" by (simp only: of_int_le_iff)
  then show ?thesis
    by (auto simp: clamp_float_def float_of_int16_def fgt_def Let_def max_def min_def
             simp del: of_int_sint)
qed

lemma clamp_nearer:
  fixes v u L H :: rat
  assumes "L \<le> u" "u \<le> H"
  shows "\<bar>max L (min v H) - u\<bar> \<le> \<bar>v - u\<bar>"
  using assms by (auto simp: max_def min_def abs_if)

lemma convex_between:
  fixes a :: rat and x y :: int
  assumes "0 \<le> a" "a \<le> 1"
  shows "of_int (min x y) \<le> a * of_int x + (1 - a) * of_int y"
    and "a * of_int x + (1 - a) * of_int y \<le> of_int (max x y)"
proof -
  define m :: rat where "m = of_int (min x y)"
  define M :: rat where "M = of_int (max x y)"
  have x: "m \<le> of_int x" "of_int x \<le> M" and y: "m \<le> of_int y" "of_int y \<le> M"
    unfolding m_def M_def by (simp_all only: of_int_le_iff)
  have "a * m \<le> a * of_int x" "(1 - a) * m \<le> (1 - a) * of_int y"
    using assms x(1) y(1) by (simp_all add: mult_left_mono)
  then have "a * m + (1 - a) * m \<le> a * of_int x + (1 - a) * of_int y" by (rule add_mono)
  moreover have "a * m + (1 - a) * m = m" by (simp add: algebra_simps)
  ultimately show "of_int (min x y) \<le> a * of_int x + (1 - a) * of_int y" unfolding m_def by simp
  have "a * of_int x \<le> a * M" "(1 - a) * of_int y \<le> (1 - a) * M"
    using assms x(2) y(2) by (simp_all add: mult_left_mono)
  then have "a * of_int x + (1 - a) * of_int y \<le> a * M + (1 - a) * M" by (rule add_mono)
  moreover have "a * M + (1 - a) * M = M" by (simp add: algebra_simps)
  ultimately show "a * of_int x + (1 - a) * of_int y \<le> of_int (max x y)" unfolding M_def by simp
qed

lemma rounded_sum_near:
  fixes a :: rat and x y :: int
  assumes a: "0 < a" "a < 1" and b: "\<bar>x\<bar> \<le> 2 ^ 15" "\<bar>y\<bar> \<le> 2 ^ 15"
  defines "b \<equiv> round_value (1 - a)"
  defines "r1 \<equiv> round_value (a * of_int x)"
  defines "r2 \<equiv> round_value (b * of_int y)"
  shows "\<bar>1 - a\<bar> \<le> 2 powi 127" and "\<bar>a * of_int x\<bar> \<le> 2 powi 127"
    and "\<bar>b * of_int y\<bar> \<le> 2 powi 127" and "\<bar>r1 + r2\<bar> \<le> 2 powi 127"
    and "\<bar>round_value (r1 + r2) - (a * of_int x + (1 - a) * of_int y)\<bar> \<le> 1 / 128"
proof -
  have big0: "(1 :: rat) \<le> 2 powi 127" using power_int_increasing [of 0 127 "2 :: rat"] by simp
  have big15: "(2 :: rat) powi 15 \<le> 2 powi 127" by (intro power_int_increasing) simp_all
  have big16: "(2 :: rat) powi 16 \<le> 2 powi 127" by (intro power_int_increasing) simp_all
  have X: "\<bar>of_int x :: rat\<bar> \<le> 2 powi 15"
  proof -
    have "(of_int \<bar>x\<bar> :: rat) \<le> of_int (2 ^ 15)" using b(1) by (simp only: of_int_le_iff)
    then show ?thesis by simp
  qed
  have Y: "\<bar>of_int y :: rat\<bar> \<le> 2 powi 15"
  proof -
    have "(of_int \<bar>y\<bar> :: rat) \<le> of_int (2 ^ 15)" using b(2) by (simp only: of_int_le_iff)
    then show ?thesis by simp
  qed
  have c1: "\<bar>1 - a\<bar> < 2 powi 0" using a by simp
  then have c1': "\<bar>1 - a\<bar> \<le> 2 powi 0" by simp
  show "\<bar>1 - a\<bar> \<le> 2 powi 127" using a big0 by simp
  have eb: "\<bar>b - (1 - a)\<bar> \<le> 2 powi (- 25)"
    unfolding b_def using round_value_near_strict [OF c1] by simp
  have ab: "\<bar>b\<bar> \<le> 1" unfolding b_def using round_value_le [OF c1'] by simp
  have ax: "\<bar>a * of_int x\<bar> < 2 powi 15"
  proof -
    have "\<bar>a * of_int x\<bar> = a * \<bar>of_int x\<bar>" using a by (simp add: abs_mult)
    also have "\<dots> \<le> a * 2 powi 15" using a X by (intro mult_left_mono) simp_all
    also have "\<dots> < 1 * 2 powi 15" using a by (intro mult_strict_right_mono) simp_all
    finally show ?thesis by simp
  qed
  then have ax': "\<bar>a * of_int x\<bar> \<le> 2 powi 15" by simp
  show "\<bar>a * of_int x\<bar> \<le> 2 powi 127" using ax' big15 by (rule order_trans)
  have e1: "\<bar>r1 - a * of_int x\<bar> \<le> 2 powi (- 10)"
    unfolding r1_def using round_value_near_strict [OF ax] by simp
  have a1: "\<bar>r1\<bar> \<le> 2 powi 15" unfolding r1_def using ax' by (intro round_value_le) simp_all
  have "by": "\<bar>b * of_int y\<bar> \<le> 2 powi 15"
  proof -
    have "\<bar>b * of_int y\<bar> = \<bar>b\<bar> * \<bar>of_int y\<bar>" by (simp add: abs_mult)
    also have "\<dots> \<le> 1 * 2 powi 15" using ab Y by (intro mult_mono) simp_all
    finally show ?thesis by simp
  qed
  show "\<bar>b * of_int y\<bar> \<le> 2 powi 127" using "by" big15 by (rule order_trans)
  have e2: "\<bar>r2 - b * of_int y\<bar> \<le> 2 powi (- 9)"
    unfolding r2_def using round_value_near [OF "by"] by simp
  have a2: "\<bar>r2\<bar> \<le> 2 powi 15" unfolding r2_def using "by" by (intro round_value_le) simp_all
  have eby: "\<bar>b * of_int y - (1 - a) * of_int y\<bar> \<le> 2 powi (- 10)"
  proof -
    have "\<bar>b * of_int y - (1 - a) * of_int y\<bar> = \<bar>b - (1 - a)\<bar> * \<bar>of_int y\<bar>"
      by (simp add: abs_mult [symmetric] algebra_simps)
    also have "\<dots> \<le> 2 powi (- 25) * 2 powi 15" using eb Y by (intro mult_mono) simp_all
    also have "(2 :: rat) powi (- 25) * 2 powi 15 = 2 powi (- 10)"
      by (simp add: power_int_add [symmetric])
    finally show ?thesis .
  qed
  have "\<bar>r1 + r2\<bar> \<le> 2 powi 15 + 2 powi 15" using a1 a2 by linarith
  also have "(2 :: rat) powi 15 + 2 powi 15 = 2 powi 16" by simp
  finally have s16: "\<bar>r1 + r2\<bar> \<le> 2 powi 16" .
  then show "\<bar>r1 + r2\<bar> \<le> 2 powi 127" using big16 by (rule order_trans)
  have e3: "\<bar>round_value (r1 + r2) - (r1 + r2)\<bar> \<le> 2 powi (- 8)"
    using round_value_near [OF s16] by simp
  define E :: rat where "E = 2 powi (- 10)"
  have p9: "(2 :: rat) powi (- 9) = 2 * E" and p8: "(2 :: rat) powi (- 8) = 4 * E"
    and p7: "(1 :: rat) / 128 = 8 * E"
    unfolding E_def by (simp_all add: power_int_minus)
  show "\<bar>round_value (r1 + r2) - (a * of_int x + (1 - a) * of_int y)\<bar> \<le> 1 / 128"
    using e1 e2 e3 eby unfolding p9 p8 p7 E_def [symmetric] by linarith
qed

lemma filter_sample_bound_step:
  assumes a: "alpha s = Num a" "0 < a" "a < 1"
    and lo: "min_val s = - 32768" and hi: "max_val s = 32767"
  shows "\<exists>s'. filter_sample s c = Some (prev_output s', s') \<and>
           alpha s' = Num a \<and> min_val s' = - 32768 \<and> max_val s' = 32767 \<and>
           of_int \<bar>sint (prev_output s') - sint c\<bar>
             \<le> (1 - a) * of_int \<bar>sint (prev_output s) - sint c\<bar> + (129 / 128 :: rat)"
proof -
  define x where "x = sint c"
  define y where "y = sint (prev_output s)"
  have bx: "- 32768 \<le> x" "x \<le> 32767" and "by": "- 32768 \<le> y" "y \<le> 32767"
    unfolding x_def y_def by (rule sint16_bounds)+
  then have ax: "\<bar>x\<bar> \<le> 2 ^ 15" and ay: "\<bar>y\<bar> \<le> 2 ^ 15" by simp_all
  have fx: "float_of_int16 c = Num (of_int x)" and fy: "float_of_int16 (prev_output s) = Num (of_int y)"
    by (simp_all add: float_of_int16_def x_def y_def del: of_int_sint)
  define b where "b = round_value (1 - a)"
  define r1 where "r1 = round_value (a * of_int x)"
  define r2 where "r2 = round_value (b * of_int y)"
  define v where "v = round_value (r1 + r2)"
  define u where "u = a * of_int x + (1 - a) * of_int y"
  note rs = rounded_sum_near [OF a(2,3) ax ay, folded b_def, folded r1_def r2_def, folded v_def u_def]
  have fb: "fsub (Num 1) (Num a) = Num b"
  proof -
    have e: "1 + - a = 1 - a" by simp
    show ?thesis unfolding fsub_def fneg.simps fadd.simps e b_def using rs(1) by (rule round32_value)
  qed
  have p1: "fmul (Num a) (Num (of_int x)) = Num r1"
    unfolding fmul.simps r1_def using rs(2) by (rule round32_value)
  have p2: "fmul (Num b) (Num (of_int y)) = Num r2"
    unfolding fmul.simps r2_def using rs(3) by (rule round32_value)
  have su: "fadd (Num r1) (Num r2) = Num v"
    unfolding fadd.simps v_def using rs(4) by (rule round32_value)
  define q :: rat where "q = max (- 32768) (min v 32767)"
  have cl: "clamp_float (Num v) (- 32768) 32767 = Num q"
  proof -
    have "sint (- 32768 :: int16_t) \<le> sint (32767 :: int16_t)" by simp
    from clamp_float_value [OF this, of v] show ?thesis unfolding q_def by simp
  qed
  have a01: "0 \<le> a" "a \<le> 1" using a(2,3) by simp_all
  have ulo: "- 32768 \<le> u"
  proof -
    have "- 32768 \<le> min x y" using bx "by" by simp
    then have "(of_int (- 32768) :: rat) \<le> of_int (min x y)" by (simp only: of_int_le_iff)
    also have "\<dots> \<le> u" unfolding u_def using a01 by (rule convex_between)
    finally show ?thesis by simp
  qed
  have uhi: "u \<le> 32767"
  proof -
    have "max x y \<le> 32767" using bx "by" by simp
    then have "(of_int (max x y) :: rat) \<le> of_int 32767" by (simp only: of_int_le_iff)
    moreover have "u \<le> of_int (max x y)" unfolding u_def using a01 by (rule convex_between)
    ultimately have "u \<le> of_int 32767" by (rule order_trans [rotated])
    then show ?thesis by simp
  qed
  have "\<bar>q - u\<bar> \<le> \<bar>v - u\<bar>" unfolding q_def using ulo uhi by (rule clamp_nearer)
  with rs(5) have qu: "\<bar>q - u\<bar> \<le> 1 / 128" by (rule order_trans [rotated])
  have qb: "of_int (- 32768) \<le> q" "q \<le> of_int 32767" unfolding q_def by simp_all
  define t where "t = trunc_rat q"
  from trunc_rat_bounds [OF qb] have tr: "- 32768 \<le> t" "t \<le> 32767" unfolding t_def by simp_all
  then have st: "sint (word_of_int t :: int16_t) = t" by (rule sint16_of_int)
  let ?s' = "s\<lparr>prev_output := word_of_int t\<rparr>"
  have run: "filter_sample s c = Some (prev_output ?s', ?s')"
    unfolding filter_sample_unfold a(1) lo hi fx fy p1 fb p2 su cl using tr unfolding t_def by simp
  have p: "sint (prev_output ?s') = t" using st by simp
  have "of_int \<bar>trunc_rat q - x\<bar> \<le> (1 - a) * of_int \<bar>y - x\<bar> + (1 + 1 / 128 :: rat)"
    using qu a01(2) unfolding u_def by (rule convex_distance)
  then have d: "of_int \<bar>t - x\<bar> \<le> (1 - a) * of_int \<bar>y - x\<bar> + (129 / 128 :: rat)"
    unfolding t_def by simp
  have "alpha ?s' = Num a" "min_val ?s' = - 32768" "max_val ?s' = 32767"
    using a(1) lo hi by simp_all
  moreover have "of_int \<bar>sint (prev_output ?s') - sint c\<bar>
      \<le> (1 - a) * of_int \<bar>sint (prev_output s) - sint c\<bar> + (129 / 128 :: rat)"
    unfolding p using d unfolding x_def y_def .
  ultimately show ?thesis using run by blast
qed

lemma constant_stream_bound:
  assumes "alpha s = Num a" "0 < a" "a < 1" "min_val s = - 32768" "max_val s = 32767"
  shows "\<exists>s1. constant_stream s c n = Some s1 \<and>
           alpha s1 = Num a \<and> min_val s1 = - 32768 \<and> max_val s1 = 32767 \<and>
           a * of_int \<bar>sint (prev_output s1) - sint c\<bar>
             \<le> a * (1 - a) ^ n * of_int \<bar>sint (prev_output s) - sint c\<bar>
                 + 129 / 128 * (1 - (1 - a) ^ n)"
  using assms
proof (induction n arbitrary: s)
  case 0
  then show ?case by simp
next
  case (Suc n)
  define k :: rat where "k = 1 - a"
  define K :: rat where "K = 129 / 128"
  have apos: "0 < a" using Suc.prems(2) .
  have kpos: "0 \<le> k" unfolding k_def using Suc.prems(3) by simp
  from filter_sample_bound_step [OF Suc.prems, of c] obtain s' where
    s': "filter_sample s c = Some (prev_output s', s')"
      "alpha s' = Num a" "min_val s' = - 32768" "max_val s' = 32767"
      "of_int \<bar>sint (prev_output s') - sint c\<bar>
         \<le> k * of_int \<bar>sint (prev_output s) - sint c\<bar> + K"
    unfolding k_def K_def by blast
  from Suc.IH [OF s'(2) Suc.prems(2,3) s'(3,4)] obtain s1 where
    s1: "constant_stream s' c n = Some s1"
      "alpha s1 = Num a" "min_val s1 = - 32768" "max_val s1 = 32767"
      "a * of_int \<bar>sint (prev_output s1) - sint c\<bar>
         \<le> a * k ^ n * of_int \<bar>sint (prev_output s') - sint c\<bar> + K * (1 - k ^ n)"
    unfolding k_def K_def by blast
  define D0 :: rat where "D0 = of_int \<bar>sint (prev_output s) - sint c\<bar>"
  define D' :: rat where "D' = of_int \<bar>sint (prev_output s') - sint c\<bar>"
  define D1 :: rat where "D1 = of_int \<bar>sint (prev_output s1) - sint c\<bar>"
  have "a * k ^ n * D' \<le> a * k ^ n * (k * D0 + K)"
    using s'(5) apos kpos unfolding D'_def D0_def by (intro mult_left_mono) simp_all
  with s1(5) have "a * D1 \<le> a * k ^ n * (k * D0 + K) + K * (1 - k ^ n)"
    unfolding D1_def D'_def by simp
  also have "\<dots> = a * k ^ Suc n * D0 + (a * k ^ n * K + K * (1 - k ^ n))"
    by (simp add: algebra_simps)
  also have "a * k ^ n * K + K * (1 - k ^ n) = K * (1 - k ^ Suc n)"
    unfolding k_def by (simp add: algebra_simps)
  finally have "a * D1 \<le> a * k ^ Suc n * D0 + K * (1 - k ^ Suc n)" .
  with s'(1) s1(1-4) show ?case
    unfolding D1_def D0_def k_def K_def by simp
qed

lemma constant_input_bound:
  assumes "alpha s = Num a" "0 < a" "a < 1" "min_val s = - 32768" "max_val s = 32767"
  shows "\<exists>s1 s2. constant_stream s c n = Some s1 \<and> constant_stream s c (Suc n) = Some s2 \<and>
           of_int \<bar>sint (prev_output s1) - sint c\<bar>
             \<le> (1 - a) ^ n * of_int \<bar>sint (prev_output s) - sint c\<bar> + 129 / 128 / a"
proof -
  have apos: "0 < a" using assms(2) .
  have kpos: "0 \<le> 1 - a" using assms(3) by simp
  from constant_stream_bound [OF assms, of c n] obtain s1 where
    s1: "constant_stream s c n = Some s1"
      "alpha s1 = Num a" "min_val s1 = - 32768" "max_val s1 = 32767"
      "a * of_int \<bar>sint (prev_output s1) - sint c\<bar>
         \<le> a * (1 - a) ^ n * of_int \<bar>sint (prev_output s) - sint c\<bar> + 129 / 128 * (1 - (1 - a) ^ n)"
    by blast
  from filter_sample_bound_step [OF s1(2) assms(2,3) s1(3,4), of c] obtain s2 where
    s2: "filter_sample s1 c = Some (prev_output s2, s2)"
    by blast
  have run: "constant_stream s c (Suc n) = Some s2"
    unfolding constant_stream_Suc_end s1(1) using s2(1) by simp
  define D0 :: rat where "D0 = of_int \<bar>sint (prev_output s) - sint c\<bar>"
  define D1 :: rat where "D1 = of_int \<bar>sint (prev_output s1) - sint c\<bar>"
  define K :: rat where "K = 129 / 128"
  have Kpos: "0 \<le> K" unfolding K_def by simp
  have "0 \<le> (1 - a) ^ n" using kpos by simp
  with Kpos have "0 \<le> K * (1 - a) ^ n" by (rule mult_nonneg_nonneg)
  then have "K * (1 - (1 - a) ^ n) \<le> K" by (simp add: algebra_simps)
  moreover have "a * D1 \<le> a * (1 - a) ^ n * D0 + K * (1 - (1 - a) ^ n)"
    using s1(5) unfolding D1_def D0_def K_def .
  ultimately have "a * D1 \<le> a * (1 - a) ^ n * D0 + K" by linarith
  also have "\<dots> = a * ((1 - a) ^ n * D0 + K / a)"
    using apos by (simp add: algebra_simps)
  finally have "D1 \<le> (1 - a) ^ n * D0 + K / a"
    using apos by (simp only: mult_le_cancel_left_pos)
  with s1(1) run show ?thesis unfolding D1_def D0_def K_def by blast
qed

section \<open>Notifications\<close>

lemma BUF_LENGTH_eq: "BUF_LENGTH = 8"
  by (simp add: BUF_LENGTH_def SAMPLE_FREQUENCY_def MICROPHEN_NUMBER_def FRAME_NUMBER_def)

lemma notify_mapped:
  "notified_filter ev = hdfsdm1_filter1 \<Longrightarrow>
   notify ev st = st\<lparr>huart1_tx := huart1_tx st @ [expected_request Mic1 ev]\<rparr>"
  by (cases ev)
     (simp_all add: HAL_DFSDM_FilterRegConvHalfCpltCallback_def
        HAL_DFSDM_FilterRegConvCpltCallback_def HAL_UART_Transmit_DMA_def first_half_def
        second_half_def buffer_bytes_def sizeof_int16_def BUF_LENGTH_eq)

lemma notify_all_mapped:
  "\<forall>ev\<in>set evs. notified_filter ev = hdfsdm1_filter1 \<Longrightarrow>
   notify_all evs st = st\<lparr>huart1_tx := huart1_tx st @ map (expected_request Mic1) evs\<rparr>"
  by (induction evs arbitrary: st) (simp_all add: notify_mapped)

lemma single_notify_eq:
  "single_notify ev st = st\<lparr>single_tx := single_tx st @ [expected_request Dfsdm ev]\<rparr>"
  by (cases ev)
     (simp_all add: single_HalfCpltCallback_def single_CpltCallback_def single_Transmit_DMA_def
        first_half_def second_half_def buffer_bytes_def sizeof_int16_def BUF_LENGTH_eq)

lemma single_notify_all_eq:
  "single_notify_all evs st = st\<lparr>single_tx := single_tx st @ map (expected_request Dfsdm) evs\<rparr>"
  by (induction evs arbitrary: st) (simp_all add: single_notify_eq)

lemma notify_unused:
  "notified_filter ev = hdfsdm1_filter0 \<Longrightarrow> notify ev st = st"
  by (cases ev)
     (simp_all add: HAL_DFSDM_FilterRegConvHalfCpltCallback_def
        HAL_DFSDM_FilterRegConvCpltCallback_def)

lemma notify_all_unused:
  "\<forall>ev\<in>set evs. notified_filter ev = hdfsdm1_filter0 \<Longrightarrow> notify_all evs st = st"
  by (induction evs arbitrary: st) (simp_all add: notify_unused)

section \<open>Properties of the low-pass filter\<close>

text \<open>
  C1: for every \<open>int16_t\<close> input and every filter state whose bounds are
  \<open>min_val = -32768\<close> and \<open>max_val = 32767\<close>, the value \<open>filter_sample\<close> returns lies
  within \<open>[min_val, max_val]\<close>; and for a coefficient in \<open>(0, 1]\<close> the call does return
  a value: the final conversion to \<open>int16_t\<close> is defined.
\<close>

theorem filter_sample_in_range:
  assumes "min_val s = - 32768" and "max_val s = 32767"
  shows "(\<forall>y s'. filter_sample s x = Some (y, s') \<longrightarrow>
            sint (min_val s) \<le> sint y \<and> sint y \<le> sint (max_val s)) \<and>
         (\<forall>a. alpha s = Num a \<and> 0 < a \<and> a \<le> 1 \<longrightarrow> filter_sample s x \<noteq> None)"
proof -
  have le: "sint (min_val s) \<le> sint (max_val s)" by (simp add: assms)
  have "sint (min_val s) \<le> sint y \<and> sint y \<le> sint (max_val s)"
    if "filter_sample s x = Some (y, s')" for y s'
    using le that by (rule filter_sample_clamped)
  moreover have "filter_sample s x \<noteq> None" if "alpha s = Num a \<and> 0 < a \<and> a \<le> 1" for a
  proof -
    from that have "alpha s = Num a" "\<bar>a\<bar> \<le> 1" by simp_all
    from filter_sample_defined [OF this le, of x] show ?thesis by auto
  qed
  ultimately show ?thesis by blast
qed

theorem filter_sample_in_range_witness:
  "filter_sample \<lparr>prev_output = 0, alpha = Num (1 / 2), min_val = - 32768, max_val = 32767\<rparr>
     32767 =
     Some (16383, \<lparr>prev_output = 16383, alpha = Num (1 / 2), min_val = - 32768, max_val = 32767\<rparr>) \<and>
   sint (- 32768 :: int16_t) \<le> sint (16383 :: int16_t) \<and>
   sint (16383 :: int16_t) \<le> sint (32767 :: int16_t)"
proof -
  let ?s = "\<lparr>prev_output = 0, alpha = Num (1 / 2), min_val = - 32768, max_val = 32767\<rparr>"
  have lo: "min_val ?s = - 32768" and hi: "max_val ?s = 32767" by simp_all
  have run: "filter_sample ?s 32767 = Some (16383, ?s\<lparr>prev_output := 16383\<rparr>)"
    by (simp add: filter_sample_half half_towards_zero_def)
  from filter_sample_in_range [OF lo hi, of 32767] run
  have "sint (min_val ?s) \<le> sint (16383 :: int16_t) \<and> sint (16383 :: int16_t) \<le> sint (max_val ?s)"
    by blast
  with run show ?thesis by simp
qed

text \<open>
  C2: for an input array of any length \<open>n\<close> and any filter state, \<open>filter_block\<close>
  produces the \<open>n\<close> outputs of \<open>n\<close> successive \<open>filter_sample\<close> calls, each on the state
  the call before left, and ends in the same state; the output is as long as the input;
  and for a coefficient in \<open>(0, 1]\<close> the block is processed to its end.
\<close>

theorem filter_block_sequential:
  assumes "length input = unat sz" and "length output = unat sz"
  shows "filter_block input output sz s = sequential_samples s input \<and>
         (\<forall>ys s'. filter_block input output sz s = Some (ys, s') \<longrightarrow> length ys = length input) \<and>
         (\<forall>a. alpha s = Num a \<and> 0 < a \<and> a \<le> 1 \<and> sint (min_val s) \<le> sint (max_val s) \<longrightarrow>
              filter_block input output sz s \<noteq> None)"
proof -
  have eq: "filter_block input output sz s = sequential_samples s input"
  proof -
    have "filter_block input output sz s =
          map_option (\<lambda>(ys, s'). (ys @ drop (unat sz) output, s'))
            (sequential_samples s (take (unat sz) input))"
      using assms by (intro filter_block_eq) simp_all
    then show ?thesis
      using assms by (cases "sequential_samples s input") auto
  qed
  have "length ys = length input" if "filter_block input output sz s = Some (ys, s')" for ys s'
    using that unfolding eq by (rule sequential_samples_length)
  moreover have "filter_block input output sz s \<noteq> None"
    if "alpha s = Num a \<and> 0 < a \<and> a \<le> 1 \<and> sint (min_val s) \<le> sint (max_val s)" for a
  proof -
    from that have "alpha s = Num a" "\<bar>a\<bar> \<le> 1" "sint (min_val s) \<le> sint (max_val s)"
      by simp_all
    then show ?thesis unfolding eq by (rule sequential_samples_defined)
  qed
  ultimately show ?thesis using eq by blast
qed

theorem filter_block_sequential_witness:
  "filter_block [32767, 0, 0] [5, 5, 5] 3
     \<lparr>prev_output = 0, alpha = Num (1 / 2), min_val = - 32768, max_val = 32767\<rparr> =
     Some ([16383, 8191, 4095],
           \<lparr>prev_output = 4095, alpha = Num (1 / 2), min_val = - 32768, max_val = 32767\<rparr>) \<and>
   sequential_samples \<lparr>prev_output = 0, alpha = Num (1 / 2), min_val = - 32768, max_val = 32767\<rparr>
     [32767, 0, 0] =
     Some ([16383, 8191, 4095],
           \<lparr>prev_output = 4095, alpha = Num (1 / 2), min_val = - 32768, max_val = 32767\<rparr>) \<and>
   length [16383, 8191, 4095 :: int16_t] = length [32767, 0, 0 :: int16_t]"
proof -
  let ?s = "\<lparr>prev_output = 0, alpha = Num (1 / 2), min_val = - 32768, max_val = 32767\<rparr>"
  have l1: "length [32767, 0, 0 :: int16_t] = unat (3 :: uint32_t)"
    and l2: "length [5, 5, 5 :: int16_t] = unat (3 :: uint32_t)" by simp_all
  have run: "sequential_samples ?s [32767, 0, 0] =
             Some ([16383, 8191, 4095], ?s\<lparr>prev_output := 4095\<rparr>)"
    by (simp add: filter_sample_half half_towards_zero_def)
  from filter_block_sequential [OF l1 l2, of ?s] run
  have "filter_block [32767, 0, 0] [5, 5, 5] 3 ?s = Some ([16383, 8191, 4095], ?s\<lparr>prev_output := 4095\<rparr>)"
    by simp
  with run show ?thesis by simp
qed

text \<open>
  C4: after \<open>init_lowpass_filter\<close> the state has \<open>prev_output = 0\<close>, the bounds
  \<open>-32768\<close> and \<open>32767\<close>, and \<open>alpha = 1 / (1 + 2 * PI * CUTOFF_FREQ / SAMPLE_RATE)\<close> for
  the configured \<open>5000\<close> and \<open>48000\<close>, computed in binary32: the number
  \<open>10140363 / 2 ^ 24\<close>, which is within \<open>10 ^ - 7\<close> of the real number
  \<open>1 / (1 + 2 * pi * 5000 / 48000)\<close>.
\<close>

theorem init_lowpass_filter_state:
  "prev_output (init_lowpass_filter s) = 0 \<and>
   alpha (init_lowpass_filter s) =
     fdiv (Num 1)
       (fadd (Num 1)
          (fdiv (fmul (fmul (Num 2) PI) (float_of_int CUTOFF_FREQ)) (float_of_int SAMPLE_RATE))) \<and>
   alpha (init_lowpass_filter s) = Num (10140363 / 16777216) \<and>
   \<bar>real_of_rat (10140363 / 16777216) -
      1 / (1 + 2 * pi * real_of_int CUTOFF_FREQ / real_of_int SAMPLE_RATE)\<bar> \<le> 1 / 10 ^ 7 \<and>
   sint (min_val (init_lowpass_filter s)) = - 32768 \<and>
   sint (max_val (init_lowpass_filter s)) = 32767"
proof -
  have "alpha (init_lowpass_filter s) = ALPHA" by (simp add: init_lowpass_filter_def)
  moreover have "\<bar>real_of_rat (10140363 / 16777216) -
      1 / (1 + 2 * pi * real_of_int CUTOFF_FREQ / real_of_int SAMPLE_RATE)\<bar> \<le> 1 / 10 ^ 7"
    using alpha_near_formula
    by (simp add: CUTOFF_FREQ_def SAMPLE_RATE_def of_rat_divide)
  ultimately show ?thesis
    using alpha_val by (simp add: init_lowpass_filter_def ALPHA_def)
qed

text \<open>
  C5: with \<open>alpha = 0.5\<close> and \<open>prev_output = 0\<close> the impulse \<open>[32767, 0, 0, 0]\<close> gives the
  outputs \<open>16383, 8191, 4095, 2047\<close>. They are the terms \<open>alpha * 32767 * (1 - alpha) ^ k\<close>
  of the geometric sequence of ratio \<open>1 - alpha\<close>, that is \<open>16383.5, 8191.75, 4095.875,
  2047.9375\<close>, each with its fraction cut off by the conversion to \<open>int16_t\<close>; the first is
  one of \<open>16383, 16384\<close> and the second one of \<open>8191, 8192\<close>.
\<close>

theorem impulse_response_geometric:
  "sequential_samples \<lparr>prev_output = 0, alpha = Num (1 / 2), min_val = - 32768, max_val = 32767\<rparr>
     [32767, 0, 0, 0] =
     Some ([16383, 8191, 4095, 2047],
           \<lparr>prev_output = 2047, alpha = Num (1 / 2), min_val = - 32768, max_val = 32767\<rparr>) \<and>
   map sint [16383, 8191, 4095, 2047 :: int16_t] =
     map (\<lambda>k. trunc_rat (1 / 2 * 32767 * (1 - 1 / 2) ^ k)) [0, 1, 2, 3] \<and>
   sint (16383 :: int16_t) \<in> {16383, 16384} \<and> sint (8191 :: int16_t) \<in> {8191, 8192}"
proof -
  have "trunc_rat (1 / 2 * 32767 * (1 - 1 / 2) ^ 0) = 16383"
    by (rule trunc_rat_nonneg_eq) simp_all
  moreover have "trunc_rat (1 / 2 * 32767 * (1 - 1 / 2) ^ 1) = 8191"
    by (rule trunc_rat_nonneg_eq) (simp_all add: power_one_over)
  moreover have "trunc_rat (1 / 2 * 32767 * (1 - 1 / 2) ^ 2) = 4095"
    by (rule trunc_rat_nonneg_eq) (simp_all add: power_one_over)
  moreover have "trunc_rat (1 / 2 * 32767 * (1 - 1 / 2) ^ 3) = 2047"
    by (rule trunc_rat_nonneg_eq) (simp_all add: power_one_over)
  moreover have "sequential_samples
      \<lparr>prev_output = 0, alpha = Num (1 / 2), min_val = - 32768, max_val = 32767\<rparr> [32767, 0, 0, 0] =
     Some ([16383, 8191, 4095, 2047],
           \<lparr>prev_output = 2047, alpha = Num (1 / 2), min_val = - 32768, max_val = 32767\<rparr>)"
    by (simp add: filter_sample_half half_towards_zero_def)
  ultimately show ?thesis by simp
qed

text \<open>
  C6, as stated: for every \<open>alpha\<close> in \<open>(0, 1)\<close> and every constant input \<open>c\<close> the distance
  of the output from \<open>c\<close> would tend to \<open>0\<close>, decreasing. With \<open>alpha = 0.5\<close>, \<open>c = 1\<close> and
  \<open>prev_output = 0\<close> the call returns \<open>0\<close> and leaves the state as it was, so every later
  output is \<open>0\<close> too, at distance \<open>1\<close>; and with \<open>alpha = 9360055 / 2 ^ 25\<close> the output
  moves from \<open>7979\<close>, the input, to \<open>7978\<close>.
\<close>

theorem constant_input_not_convergent:
  "filter_sample \<lparr>prev_output = 0, alpha = Num (1 / 2), min_val = - 32768, max_val = 32767\<rparr> 1 =
     Some (0, \<lparr>prev_output = 0, alpha = Num (1 / 2), min_val = - 32768, max_val = 32767\<rparr>) \<and>
   constant_stream \<lparr>prev_output = 0, alpha = Num (1 / 2), min_val = - 32768, max_val = 32767\<rparr> 1
     (Suc (Suc (Suc 0))) =
     Some \<lparr>prev_output = 0, alpha = Num (1 / 2), min_val = - 32768, max_val = 32767\<rparr> \<and>
   \<bar>sint (0 :: int16_t) - sint (1 :: int16_t)\<bar> = 1 \<and>
   filter_sample
     \<lparr>prev_output = 7979, alpha = Num (9360055 / 33554432), min_val = - 32768, max_val = 32767\<rparr>
     7979 =
     Some (7978,
       \<lparr>prev_output = 7978, alpha = Num (9360055 / 33554432), min_val = - 32768, max_val = 32767\<rparr>)"
proof -
  have "filter_sample \<lparr>prev_output = 0, alpha = Num (1 / 2), min_val = - 32768, max_val = 32767\<rparr> 1 =
     Some (0, \<lparr>prev_output = 0, alpha = Num (1 / 2), min_val = - 32768, max_val = 32767\<rparr>)"
    by (simp add: filter_sample_half half_towards_zero_def)
  then show ?thesis using filter_sample_drifts by simp
qed

text \<open>
  C6, amended: with the full \<open>int16_t\<close> bounds and a coefficient \<open>alpha\<close> with
  \<open>0 < alpha < 1\<close>: for every constant input \<open>c\<close>, every starting state and every \<open>n\<close>, the
  \<open>n\<close> calls all return, and after \<open>n\<close> calls the distance of the output from \<open>c\<close> is at
  most \<open>(1 - alpha) ^ n * d + (129 / 128) / alpha\<close> for the starting distance \<open>d\<close>. When
  \<open>alpha\<close> is a binary32 number in \<open>[1/2, 1)\<close> (\<open>A / 2 ^ 24\<close> with \<open>2 ^ 23 \<le> A < 2 ^ 24\<close>,
  which includes the configured \<open>ALPHA\<close>) or of the form \<open>m / 256\<close> with \<open>0 < m < 256\<close>, the
  distance does not grow from the \<open>n\<close>-th call to the next; for \<open>alpha = m / 256\<close>, where the
  arithmetic is exact, the distance after \<open>n\<close> calls is at most
  \<open>(1 - alpha) ^ n * d + 1 / alpha\<close>. It need not reach \<open>0\<close>.
\<close>

theorem constant_input_settles:
  assumes "min_val s = - 32768" "max_val s = 32767" "alpha s = Num a" "0 < a" "a < 1"
  shows "\<exists>s1 s2. constant_stream s c n = Some s1 \<and> constant_stream s c (Suc n) = Some s2 \<and>
           of_int \<bar>sint (prev_output s1) - sint c\<bar>
             \<le> (1 - a) ^ n * of_int \<bar>sint (prev_output s) - sint c\<bar> + 129 / 128 / a \<and>
           ((\<exists>A. a = of_int A / 2 ^ 24 \<and> 2 ^ 23 \<le> A \<and> A < 2 ^ 24) \<or>
            (\<exists>m. a = of_int m / 256 \<and> 0 < m \<and> m < 256) \<longrightarrow>
              \<bar>sint (prev_output s2) - sint c\<bar> \<le> \<bar>sint (prev_output s1) - sint c\<bar>) \<and>
           ((\<exists>m. a = of_int m / 256 \<and> 0 < m \<and> m < 256) \<longrightarrow>
              of_int \<bar>sint (prev_output s1) - sint c\<bar>
                \<le> (1 - a) ^ n * of_int \<bar>sint (prev_output s) - sint c\<bar> + 1 / a)"
proof -
  from constant_input_bound [OF assms(3,4,5,1,2), of c n] obtain s1 s2 where
    r: "constant_stream s c n = Some s1" "constant_stream s c (Suc n) = Some s2"
      "of_int \<bar>sint (prev_output s1) - sint c\<bar>
         \<le> (1 - a) ^ n * of_int \<bar>sint (prev_output s) - sint c\<bar> + 129 / 128 / a"
    by blast
  have mono: "\<bar>sint (prev_output s2) - sint c\<bar> \<le> \<bar>sint (prev_output s1) - sint c\<bar>"
    if "(\<exists>A. a = of_int A / 2 ^ 24 \<and> 2 ^ 23 \<le> A \<and> A < 2 ^ 24) \<or>
        (\<exists>m. a = of_int m / 256 \<and> 0 < m \<and> m < 256)"
    using constant_input_monotone [OF assms(1,2,3) that, of c n] r(1,2) by auto
  have exact: "of_int \<bar>sint (prev_output s1) - sint c\<bar>
      \<le> (1 - a) ^ n * of_int \<bar>sint (prev_output s) - sint c\<bar> + 1 / a"
    if m: "\<exists>m. a = of_int m / 256 \<and> 0 < m \<and> m < 256"
  proof -
    from m have "(\<exists>A. a = of_int A / 2 ^ 24 \<and> 2 ^ 23 \<le> A \<and> A < 2 ^ 24) \<or>
        (\<exists>m. a = of_int m / 256 \<and> 0 < m \<and> m < 256)" by (rule disjI2)
    from constant_input_monotone [OF assms(1,2,3) this, of c n] r(1,2) m show ?thesis by auto
  qed
  from r mono exact show ?thesis by blast
qed

theorem constant_input_settles_witness:
  "constant_stream \<lparr>prev_output = 0, alpha = Num (1 / 2), min_val = - 32768, max_val = 32767\<rparr>
     100 (Suc (Suc 0)) =
     Some \<lparr>prev_output = 75, alpha = Num (1 / 2), min_val = - 32768, max_val = 32767\<rparr> \<and>
   constant_stream \<lparr>prev_output = 0, alpha = Num (1 / 2), min_val = - 32768, max_val = 32767\<rparr>
     100 (Suc (Suc (Suc 0))) =
     Some \<lparr>prev_output = 87, alpha = Num (1 / 2), min_val = - 32768, max_val = 32767\<rparr> \<and>
   \<bar>sint (87 :: int16_t) - sint (100 :: int16_t)\<bar> \<le> \<bar>sint (75 :: int16_t) - sint (100 :: int16_t)\<bar> \<and>
   (of_int \<bar>sint (75 :: int16_t) - sint (100 :: int16_t)\<bar> :: rat)
     \<le> (1 - 1 / 2) ^ Suc (Suc 0) * of_int \<bar>sint (0 :: int16_t) - sint (100 :: int16_t)\<bar>
         + 1 / (1 / 2) \<and>
   (\<exists>s1 s2.
      constant_stream
        (init_lowpass_filter \<lparr>prev_output = 7, alpha = NaN, min_val = 0, max_val = 0\<rparr>) 1000 5 = Some s1 \<and>
      constant_stream
        (init_lowpass_filter \<lparr>prev_output = 7, alpha = NaN, min_val = 0, max_val = 0\<rparr>) 1000 (Suc 5) = Some s2 \<and>
      \<bar>sint (prev_output s2) - sint (1000 :: int16_t)\<bar> \<le> \<bar>sint (prev_output s1) - sint (1000 :: int16_t)\<bar> \<and>
      (of_int \<bar>sint (prev_output s1) - sint (1000 :: int16_t)\<bar> :: rat)
        \<le> (1 - 10140363 / 16777216) ^ 5 * 1000 + 129 / 128 / (10140363 / 16777216))"
proof -
  let ?s = "\<lparr>prev_output = 0, alpha = Num (1 / 2), min_val = - 32768, max_val = 32767\<rparr>"
  have a: "alpha ?s = Num (1 / 2)"
    and lo: "min_val ?s = - 32768" and hi: "max_val ?s = 32767"
    and pos: "(0 :: rat) < 1 / 2" and less: "(1 / 2 :: rat) < 1"
    by simp_all
  have m: "\<exists>m :: int. (1 / 2 :: rat) = of_int m / 256 \<and> 0 < m \<and> m < 256"
    by (intro exI [of _ 128]) simp
  then have fam: "(\<exists>A :: int. (1 / 2 :: rat) = of_int A / 2 ^ 24 \<and> 2 ^ 23 \<le> A \<and> A < 2 ^ 24) \<or>
      (\<exists>m :: int. (1 / 2 :: rat) = of_int m / 256 \<and> 0 < m \<and> m < 256)" by (rule disjI2)
  have r2: "constant_stream ?s 100 (Suc (Suc 0)) = Some (?s\<lparr>prev_output := 75\<rparr>)"
    by (simp add: filter_sample_half half_towards_zero_def)
  have r3: "constant_stream ?s 100 (Suc (Suc (Suc 0))) = Some (?s\<lparr>prev_output := 87\<rparr>)"
    by (simp add: filter_sample_half half_towards_zero_def)
  from constant_input_settles [OF lo hi a pos less, of 100 "Suc (Suc 0)"] fam m obtain s1 s2 where
    "constant_stream ?s 100 (Suc (Suc 0)) = Some s1"
    "constant_stream ?s 100 (Suc (Suc (Suc 0))) = Some s2"
    "\<bar>sint (prev_output s2) - sint (100 :: int16_t)\<bar> \<le> \<bar>sint (prev_output s1) - sint (100 :: int16_t)\<bar>"
    "(of_int \<bar>sint (prev_output s1) - sint (100 :: int16_t)\<bar> :: rat)
       \<le> (1 - 1 / 2) ^ Suc (Suc 0) * of_int \<bar>sint (prev_output ?s) - sint (100 :: int16_t)\<bar>
           + 1 / (1 / 2)"
    by blast
  with r2 r3 have first:
    "constant_stream ?s 100 (Suc (Suc 0)) =
       Some \<lparr>prev_output = 75, alpha = Num (1 / 2), min_val = - 32768, max_val = 32767\<rparr> \<and>
     constant_stream ?s 100 (Suc (Suc (Suc 0))) =
       Some \<lparr>prev_output = 87, alpha = Num (1 / 2), min_val = - 32768, max_val = 32767\<rparr> \<and>
     \<bar>sint (87 :: int16_t) - sint (100 :: int16_t)\<bar> \<le> \<bar>sint (75 :: int16_t) - sint (100 :: int16_t)\<bar> \<and>
     (of_int \<bar>sint (75 :: int16_t) - sint (100 :: int16_t)\<bar> :: rat)
       \<le> (1 - 1 / 2) ^ Suc (Suc 0) * of_int \<bar>sint (0 :: int16_t) - sint (100 :: int16_t)\<bar>
           + 1 / (1 / 2)"
    by simp
  let ?i = "init_lowpass_filter \<lparr>prev_output = 7, alpha = NaN, min_val = 0, max_val = 0\<rparr>"
  have ia: "alpha ?i = Num (10140363 / 16777216)"
    and ilo: "min_val ?i = - 32768" and ihi: "max_val ?i = 32767" and ip: "prev_output ?i = 0"
    by (simp_all add: init_lowpass_filter_def alpha_val)
  have ipos: "(0 :: rat) < 10140363 / 16777216" and iless: "(10140363 / 16777216 :: rat) < 1"
    by simp_all
  have ifam: "(\<exists>A :: int. (10140363 / 16777216 :: rat) = of_int A / 2 ^ 24 \<and> 2 ^ 23 \<le> A \<and> A < 2 ^ 24) \<or>
      (\<exists>m :: int. (10140363 / 16777216 :: rat) = of_int m / 256 \<and> 0 < m \<and> m < 256)"
    by (intro disjI1 exI [of _ 10140363]) simp
  from constant_input_settles [OF ilo ihi ia ipos iless, of 1000 5] ifam obtain s1 s2 where
    "constant_stream ?i 1000 5 = Some s1" "constant_stream ?i 1000 (Suc 5) = Some s2"
    "\<bar>sint (prev_output s2) - sint (1000 :: int16_t)\<bar> \<le> \<bar>sint (prev_output s1) - sint (1000 :: int16_t)\<bar>"
    "(of_int \<bar>sint (prev_output s1) - sint (1000 :: int16_t)\<bar> :: rat)
        \<le> (1 - 10140363 / 16777216) ^ 5 * of_int \<bar>sint (prev_output ?i) - sint (1000 :: int16_t)\<bar>
            + 129 / 128 / (10140363 / 16777216)"
    by blast
  then have second: "\<exists>s1 s2.
      constant_stream ?i 1000 5 = Some s1 \<and> constant_stream ?i 1000 (Suc 5) = Some s2 \<and>
      \<bar>sint (prev_output s2) - sint (1000 :: int16_t)\<bar> \<le> \<bar>sint (prev_output s1) - sint (1000 :: int16_t)\<bar> \<and>
      (of_int \<bar>sint (prev_output s1) - sint (1000 :: int16_t)\<bar> :: rat)
        \<le> (1 - 10140363 / 16777216) ^ 5 * 1000 + 129 / 128 / (10140363 / 16777216)"
    unfolding ip by (intro exI [of _ s1] exI [of _ s2]) simp
  from first second show ?thesis by blast
qed

text \<open>
  C7: whatever the filter state was, and however many samples were processed before,
  \<open>init_lowpass_filter\<close> sets \<open>prev_output\<close> back to \<open>0\<close>.
\<close>

theorem init_lowpass_filter_resets: "prev_output (init_lowpass_filter s) = 0"
  by (simp add: init_lowpass_filter_def)

text \<open>
  C10: a call of \<open>filter_sample\<close> changes no field of the filter state but
  \<open>prev_output\<close>, which becomes the value returned; and \<open>filter_block\<close> with \<open>size = 0\<close>
  writes no output element and leaves the filter state as it was.
\<close>

theorem filter_sample_only_prev_output:
  "(\<forall>y s'. filter_sample s x = Some (y, s') \<longrightarrow> s' = s\<lparr>prev_output := y\<rparr>) \<and>
   filter_block input output 0 s = Some (output, s)"
proof -
  have "filter_block input output 0 s = Some (output, s)"
    unfolding filter_block_def by (subst filter_block_loop.simps) simp
  then show ?thesis by (auto dest: filter_sample_state)
qed

theorem filter_sample_only_prev_output_witness:
  "filter_sample \<lparr>prev_output = 7, alpha = Num (1 / 2), min_val = - 32768, max_val = 32767\<rparr> 100 =
     Some (53, \<lparr>prev_output = 53, alpha = Num (1 / 2), min_val = - 32768, max_val = 32767\<rparr>) \<and>
   filter_block [1, 2] [3, 4] 0
     \<lparr>prev_output = 7, alpha = Num (1 / 2), min_val = - 32768, max_val = 32767\<rparr> =
     Some ([3, 4], \<lparr>prev_output = 7, alpha = Num (1 / 2), min_val = - 32768, max_val = 32767\<rparr>)"
proof -
  let ?s = "\<lparr>prev_output = 7, alpha = Num (1 / 2), min_val = - 32768, max_val = 32767\<rparr>"
  obtain y s' where run: "filter_sample ?s 100 = Some (y, s')" and y: "y = 53"
    by (simp add: filter_sample_half half_towards_zero_def)
  from filter_sample_only_prev_output [of ?s 100 "[1, 2]" "[3, 4]"] run
  have "s' = ?s\<lparr>prev_output := y\<rparr>" and "filter_block [1, 2] [3, 4] 0 ?s = Some ([3, 4], ?s)"
    by blast+
  with run y show ?thesis by simp
qed

section \<open>Properties of the capture hand-off\<close>

text \<open>
  C3: for every sequence of \<open>N\<close> half-complete and full-complete notifications that
  carry the mapped handle \<open>hdfsdm1_filter1\<close>, exactly \<open>N\<close> transfers are started, in
  order: a half-complete starts the transfer of the first half of \<open>Buf_Mic1\<close>, a
  full-complete that of the second half, which begins \<open>BUF_LENGTH / 2\<close> samples into the
  array. The one-microphone variant does the same on \<open>dfsdm_buf\<close>, for any handle.
\<close>

theorem handoff_mapped_channel:
  assumes "\<forall>ev\<in>set evs. notified_filter ev = hdfsdm1_filter1"
  shows "huart1_tx (notify_all evs st) = huart1_tx st @ map (expected_request Mic1) evs \<and>
         length (huart1_tx (notify_all evs st)) = length (huart1_tx st) + length evs \<and>
         single_tx (single_notify_all evs st1) = single_tx st1 @ map (expected_request Dfsdm) evs \<and>
         length (single_tx (single_notify_all evs st1)) = length (single_tx st1) + length evs \<and>
         tx_offset (second_half Mic1) = sizeof_int16 * (BUF_LENGTH div 2)"
  using assms
  by (simp add: notify_all_mapped single_notify_all_eq second_half_def buffer_bytes_def
        sizeof_int16_def BUF_LENGTH_eq)

theorem handoff_mapped_channel_witness:
  "huart1_tx (notify_all [HalfCplt hdfsdm1_filter1, Cplt hdfsdm1_filter1, HalfCplt hdfsdm1_filter1]
                capture_init) =
     [\<lparr>tx_buffer = Mic1, tx_offset = 0, tx_size = 8\<rparr>,
      \<lparr>tx_buffer = Mic1, tx_offset = 8, tx_size = 8\<rparr>,
      \<lparr>tx_buffer = Mic1, tx_offset = 0, tx_size = 8\<rparr>] \<and>
   single_tx (single_notify_all [HalfCplt hdfsdm1_filter1, Cplt hdfsdm1_filter1, HalfCplt hdfsdm1_filter1]
                single_init) =
     [\<lparr>tx_buffer = Dfsdm, tx_offset = 0, tx_size = 8\<rparr>,
      \<lparr>tx_buffer = Dfsdm, tx_offset = 8, tx_size = 8\<rparr>,
      \<lparr>tx_buffer = Dfsdm, tx_offset = 0, tx_size = 8\<rparr>]"
proof -
  let ?evs = "[HalfCplt hdfsdm1_filter1, Cplt hdfsdm1_filter1, HalfCplt hdfsdm1_filter1]"
  have h: "\<forall>ev\<in>set ?evs. notified_filter ev = hdfsdm1_filter1" by simp
  from handoff_mapped_channel [OF h, of capture_init single_init] show ?thesis
    by (simp add: capture_init_def single_init_def first_half_def second_half_def
          buffer_bytes_def sizeof_int16_def BUF_LENGTH_eq)
qed

text \<open>
  C8: in the two-microphone variant a half-complete or full-complete notification that
  carries the unused handle \<open>hdfsdm1_filter0\<close> does nothing: no transfer is started and
  the arrays and the list of requests are as before, for one notification and for any
  sequence of them.
\<close>

theorem unused_channel_dropped:
  "HAL_DFSDM_FilterRegConvHalfCpltCallback hdfsdm1_filter0 st = st \<and>
   HAL_DFSDM_FilterRegConvCpltCallback hdfsdm1_filter0 st = st \<and>
   ((\<forall>ev\<in>set evs. notified_filter ev = hdfsdm1_filter0) \<longrightarrow> notify_all evs st = st)"
  by (simp add: HAL_DFSDM_FilterRegConvHalfCpltCallback_def
        HAL_DFSDM_FilterRegConvCpltCallback_def notify_all_unused)

theorem unused_channel_dropped_witness:
  "notify_all [HalfCplt hdfsdm1_filter0, Cplt hdfsdm1_filter0] capture_init = capture_init \<and>
   huart1_tx (notify_all [HalfCplt hdfsdm1_filter0, Cplt hdfsdm1_filter0] capture_init) = []"
proof -
  let ?evs = "[HalfCplt hdfsdm1_filter0, Cplt hdfsdm1_filter0]"
  have h: "\<forall>ev\<in>set ?evs. notified_filter ev = hdfsdm1_filter0" by simp
  from unused_channel_dropped [of capture_init ?evs] h
  have "notify_all ?evs capture_init = capture_init" by blast
  then show ?thesis by (simp add: capture_init_def)
qed

text \<open>
  C9: the capture array has samples-per-millisecond times channel-count times
  frame-count elements, \<open>8000 / 1000 * 1 * 1 = 8\<close> with the configured constants.
\<close>

theorem capture_buffer_length:
  "BUF_LENGTH = SAMPLE_FREQUENCY div 1000 * MICROPHEN_NUMBER * FRAME_NUMBER \<and>
   BUF_LENGTH = 8 \<and>
   length (Buf_Mic0 capture_init) = BUF_LENGTH \<and>
   length (Buf_Mic1 capture_init) = BUF_LENGTH \<and>
   length (dfsdm_buf single_init) = BUF_LENGTH"
  by (simp add: capture_init_def single_init_def BUF_LENGTH_eq)
     (simp add: BUF_LENGTH_def SAMPLE_FREQUENCY_def MICROPHEN_NUMBER_def FRAME_NUMBER_def)

end
